theory Spec2Isabelle
  imports Main "HOL-Library.Word" "HOL-Library.Multiset"
begin

section \<open>Data model of vm.c\<close>

text \<open>
  The four operations of \<^verbatim>\<open>vm.c\<close> work on three globals: the running process
  \<^verbatim>\<open>current\<close>, the ready queue \<^verbatim>\<open>processes\<close> and the frame reference counts
  \<^verbatim>\<open>mapcounts\<close>. A page table is embedded in its process, and every inner directory is
  reached from exactly one outer slot (alloc_page and the fork path of switch_process
  each \<^verbatim>\<open>malloc\<close> a directory of their own and never copy a directory pointer), so no two
  processes alias a directory and the state is modelled by value.

  \<^verbatim>\<open>unsigned int\<close> is a 32-bit word. The two macros of the absent header, the fan-out
  \<^verbatim>\<open>NR_PTES_PER_PAGE\<close> (size of the outer array and of every directory) and the frame
  count \<^verbatim>\<open>NR_PAGEFRAMES\<close>, are parameters.

  \<^verbatim>\<open>ptbr\<close> is only ever assigned \<^verbatim>\<open>&p->pagetable\<close> right after \<^verbatim>\<open>current = p\<close>; it is
  read through \<^verbatim>\<open>current\<close> here.
\<close>

type_synonym u32 = "32 word"

text \<open>
  Modelled from the spec: the declarations of \<^verbatim>\<open>struct pte\<close>, \<^verbatim>\<open>struct pte_directory\<close>,
  \<^verbatim>\<open>struct pagetable\<close> and \<^verbatim>\<open>struct process\<close> are in the absent header. The fields are
  those of the spec's data model, which are the ones the code reads and writes;
  \<open>pfn\<close> and \<open>private\<close> are unsigned integers, as the code stores the loop counter in
  the one and stores and compares 0 and 1 in the other. The queue linkage of a process is
  its place in the list \<open>processes\<close>.
\<close>

record pte =
  valid :: bool
  writable :: bool
  pfn :: u32
  "private" :: u32

type_synonym pte_directory = "pte list"

type_synonym pagetable = "pte_directory option list"

record process =
  pid :: u32
  pagetable :: pagetable

record vm =
  processes :: "process list"
  current :: process
  mapcounts :: "u32 list"

record config =
  NR_PTES_PER_PAGE :: nat
  NR_PAGEFRAMES :: nat

text \<open>
  What C leaves undefined is a fault of the model: following a null directory pointer,
  and indexing the outer array or \<^verbatim>\<open>mapcounts\<close> past its end.
\<close>

datatype fault = NullDereference | OutOfBounds

definition ptbr :: "vm \<Rightarrow> pagetable" where
  "ptbr s = pagetable (current s)"

definition set_directory :: "nat \<Rightarrow> pte_directory \<Rightarrow> vm \<Rightarrow> vm" where
  "set_directory op_index d s =
     s\<lparr>current := (current s)\<lparr>pagetable := (pagetable (current s))[op_index := Some d]\<rparr>\<rparr>"

text \<open>
  The scan \<^verbatim>\<open>for (i = 0; i < NR_PAGEFRAMES; i++) if (mapcounts[i] == 0) { ...; return }\<close>
  that alloc_page and handle_page_fault both contain: the index at which the body runs,
  or \<open>None\<close> when the loop falls through.
\<close>

function scan_free :: "nat \<Rightarrow> nat \<Rightarrow> u32 list \<Rightarrow> nat option" where
  "scan_free n i mc =
     (if i < n then (if mc ! i = 0 then Some i else scan_free n (Suc i) mc) else None)"
  by pat_completeness auto
termination
  by (relation "measure (\<lambda>(n, i, mc). n - i)") auto

declare scan_free.simps [simp del]

section \<open>alloc_page\<close>

text \<open>
  \<open>fresh\<close> is the content of the block that \<^verbatim>\<open>malloc(sizeof(struct pte_directory))\<close>
  hands back; the code does not initialise it. The directory is installed before the
  scan, so it stays when the scan finds nothing. The result is the returned value and
  the state; \<open>- 1\<close> is the \<^verbatim>\<open>unsigned int\<close> that \<^verbatim>\<open>return -1\<close> yields.
\<close>

definition alloc_page :: "config \<Rightarrow> pte_directory \<Rightarrow> u32 \<Rightarrow> u32 \<Rightarrow> vm \<Rightarrow> fault + (u32 \<times> vm)" where
  "alloc_page cfg fresh vpn rw s =
     (let rwflag = (rw \<noteq> 1);
          op_index = unat vpn div NR_PTES_PER_PAGE cfg;
          ip_index = unat vpn mod NR_PTES_PER_PAGE cfg
      in if \<not> op_index < NR_PTES_PER_PAGE cfg then Inl OutOfBounds
         else
           let s1 = (if pagetable (current s) ! op_index = None
                     then set_directory op_index fresh s else s)
           in case scan_free (NR_PAGEFRAMES cfg) 0 (mapcounts s1) of
                None \<Rightarrow> Inr (- 1, s1)
              | Some i \<Rightarrow>
                  let mc = (mapcounts s1)[i := mapcounts s1 ! i + 1];
                      d = the (pagetable (current s1) ! op_index);
                      e = (d ! ip_index)\<lparr>valid := True, writable := rwflag, pfn := of_nat i,
                             private := (if rwflag then 1 else 0)\<rparr>
                  in Inr (of_nat i, set_directory op_index (d[ip_index := e]) (s1\<lparr>mapcounts := mc\<rparr>)))"

section \<open>free_page\<close>

definition free_page :: "config \<Rightarrow> u32 \<Rightarrow> vm \<Rightarrow> fault + vm" where
  "free_page cfg vpn s =
     (let op_index = unat vpn div NR_PTES_PER_PAGE cfg;
          ip_index = unat vpn mod NR_PTES_PER_PAGE cfg
      in if \<not> op_index < NR_PTES_PER_PAGE cfg then Inl OutOfBounds
         else case pagetable (current s) ! op_index of
                None \<Rightarrow> Inl NullDereference
              | Some d \<Rightarrow>
                  let e = (d ! ip_index)\<lparr>valid := False, writable := False, private := 0\<rparr>;
                      f = unat (pfn e)
                  in if \<not> f < length (mapcounts s) then Inl OutOfBounds
                     else
                       let mc = (mapcounts s)[f := mapcounts s ! f - 1]
                       in Inr (set_directory op_index (d[ip_index := e\<lparr>pfn := 0\<rparr>])
                                 (s\<lparr>mapcounts := mc\<rparr>)))"

section \<open>handle_page_fault\<close>

definition handle_page_fault :: "config \<Rightarrow> u32 \<Rightarrow> u32 \<Rightarrow> vm \<Rightarrow> fault + (bool \<times> vm)" where
  "handle_page_fault cfg vpn rw s =
     (let op_index = unat vpn div NR_PTES_PER_PAGE cfg;
          ip_index = unat vpn mod NR_PTES_PER_PAGE cfg
      in if \<not> op_index < NR_PTES_PER_PAGE cfg then Inl OutOfBounds
         else case pagetable (current s) ! op_index of
                None \<Rightarrow> Inl NullDereference
              | Some d \<Rightarrow>
                  let e = d ! ip_index
                  in if private e = 1 then
                       (if \<not> unat (pfn e) < length (mapcounts s) then Inl OutOfBounds
                        else if mapcounts s ! unat (pfn e) = 1 then
                          Inr (True, set_directory op_index (d[ip_index := e\<lparr>writable := True\<rparr>]) s)
                        else
                          case scan_free (NR_PAGEFRAMES cfg) 0 (mapcounts s) of
                            None \<Rightarrow> Inr (False, s)
                          | Some i \<Rightarrow>
                              let mc1 = (mapcounts s)[i := mapcounts s ! i + 1];
                                  e1 = e\<lparr>writable := True\<rparr>;
                                  f = unat (pfn e1);
                                  mc2 = mc1[f := mc1 ! f - 1]
                              in Inr (True, set_directory op_index (d[ip_index := e1\<lparr>pfn := of_nat i\<rparr>])
                                              (s\<lparr>mapcounts := mc2\<rparr>)))
                     else Inr (False, s))"

section \<open>switch_process\<close>

text \<open>
  The walk over the ready queue stops at the first process whose pid matches.
\<close>

fun find_process :: "u32 \<Rightarrow> process list \<Rightarrow> nat option" where
  "find_process x [] = None"
| "find_process x (p # ps) =
     (if pid p = x then Some 0 else map_option Suc (find_process x ps))"

definition list_del :: "nat \<Rightarrow> 'a list \<Rightarrow> 'a list" where
  "list_del k xs = take k xs @ drop (Suc k) xs"

text \<open>
  The inner loop of the fork, over the entries \<open>q\<close> of one directory: \<open>pd\<close> is the
  parent's directory, \<open>cd\<close> the child's freshly allocated one, \<open>mc\<close> the reference
  counts. The four fields of the child's entry are assigned one by one; an entry that is
  not valid in the parent leaves the child's entry as \<^verbatim>\<open>malloc\<close> delivered it.
\<close>

function fork_ptes :: "nat \<Rightarrow> nat \<Rightarrow> pte_directory \<Rightarrow> pte_directory \<Rightarrow> u32 list
    \<Rightarrow> fault + (pte_directory \<times> pte_directory \<times> u32 list)" where
  "fork_ptes n q pd cd mc =
     (if q < n then
        (if valid (pd ! q) then
           (let c1 = (cd ! q)\<lparr>valid := True\<rparr>;
                p1 = (pd ! q)\<lparr>writable := False\<rparr>;
                c2 = c1\<lparr>writable := False, private := private p1, pfn := pfn p1\<rparr>;
                f = unat (pfn p1)
            in if \<not> f < length mc then Inl OutOfBounds
               else fork_ptes n (Suc q) (pd[q := p1]) (cd[q := c2]) (mc[f := mc ! f + 1]))
         else fork_ptes n (Suc q) pd cd mc)
      else Inr (pd, cd, mc))"
  by pat_completeness auto
termination
  by (relation "measure (\<lambda>(n, q, pd, cd, mc). n - q)") auto

declare fork_ptes.simps [simp del]

text \<open>
  The outer loop, over the slots \<open>j\<close> of the outer array: \<open>ppt\<close> is the parent's page
  table, \<open>cpt\<close> the page table inside the child's freshly allocated
  \<^verbatim>\<open>struct process\<close>, and \<open>fresh j\<close> the content of the directory block allocated for
  slot \<open>j\<close>. A slot that is null in the parent is not touched in the child.
\<close>

function fork_dirs :: "nat \<Rightarrow> nat \<Rightarrow> pagetable \<Rightarrow> pagetable \<Rightarrow> (nat \<Rightarrow> pte_directory) \<Rightarrow> u32 list
    \<Rightarrow> fault + (pagetable \<times> pagetable \<times> u32 list)" where
  "fork_dirs n j ppt cpt fresh mc =
     (if j < n then
        (case ppt ! j of
           None \<Rightarrow> fork_dirs n (Suc j) ppt cpt fresh mc
         | Some pd \<Rightarrow>
             (case fork_ptes n 0 pd (fresh j) mc of
                Inl e \<Rightarrow> Inl e
              | Inr (pd', cd', mc') \<Rightarrow>
                  fork_dirs n (Suc j) (ppt[j := Some pd']) (cpt[j := Some cd']) fresh mc'))
      else Inr (ppt, cpt, mc))"
  by pat_completeness auto
termination
  by (relation "measure (\<lambda>(n, j, ppt, cpt, fresh, mc). n - j)") auto

declare fork_dirs.simps [simp del]

text \<open>
  \<open>fresh_pt\<close> is the (uninitialised) page table inside the block that
  \<^verbatim>\<open>malloc(sizeof(struct process))\<close> hands back, \<open>fresh\<close> the directory blocks as above.
  Both are used on the fork path only.
\<close>

definition switch_process :: "config \<Rightarrow> pagetable \<Rightarrow> (nat \<Rightarrow> pte_directory) \<Rightarrow> u32 \<Rightarrow> vm \<Rightarrow> fault + vm" where
  "switch_process cfg fresh_pt fresh x s =
     (case find_process x (processes s) of
        Some k \<Rightarrow>
          Inr (s\<lparr>processes := list_del k (processes s @ [current s]),
                 current := processes s ! k\<rparr>)
      | None \<Rightarrow>
          (let p = \<lparr>pid = x, pagetable = fresh_pt\<rparr>
           in case fork_dirs (NR_PTES_PER_PAGE cfg) 0 (pagetable (current s)) (pagetable p) fresh
                     (mapcounts s) of
                Inl e \<Rightarrow> Inl e
              | Inr (ppt, cpt, mc) \<Rightarrow>
                  Inr (s\<lparr>processes := processes s @ [(current s)\<lparr>pagetable := ppt\<rparr>],
                         current := p\<lparr>pagetable := cpt\<rparr>,
                         mapcounts := mc\<rparr>)))"

section \<open>Well-formed states\<close>

text \<open>
  The arrays have their declared sizes, and \<^verbatim>\<open>NR_PAGEFRAMES\<close> fits the \<^verbatim>\<open>int\<close> loop
  counter whose value is stored into the \<^verbatim>\<open>unsigned int\<close> field \<^verbatim>\<open>pfn\<close>.
\<close>

definition wf_pagetable :: "config \<Rightarrow> pagetable \<Rightarrow> bool" where
  "wf_pagetable cfg pt \<longleftrightarrow>
     length pt = NR_PTES_PER_PAGE cfg \<and>
     list_all (\<lambda>d. case d of None \<Rightarrow> True | Some ps \<Rightarrow> length ps = NR_PTES_PER_PAGE cfg) pt"

definition wf_vm :: "config \<Rightarrow> vm \<Rightarrow> bool" where
  "wf_vm cfg s \<longleftrightarrow>
     0 < NR_PTES_PER_PAGE cfg \<and> NR_PAGEFRAMES cfg < 2 ^ 31 \<and>
     length (mapcounts s) = NR_PAGEFRAMES cfg \<and>
     list_all (\<lambda>p. wf_pagetable cfg (pagetable p)) (current s # processes s)"

definition zero_pte :: pte where
  "zero_pte = \<lparr>valid = False, writable = False, pfn = 0, private = 0\<rparr>"

definition zero_directory :: "config \<Rightarrow> pte_directory" where
  "zero_directory cfg = replicate (NR_PTES_PER_PAGE cfg) zero_pte"

definition empty_pagetable :: "config \<Rightarrow> pagetable" where
  "empty_pagetable cfg = replicate (NR_PTES_PER_PAGE cfg) None"

text \<open>The entry of the running process for a virtual page number, where it exists.\<close>

definition lookup_pte :: "config \<Rightarrow> pagetable \<Rightarrow> nat \<Rightarrow> pte option" where
  "lookup_pte cfg pt v =
     (if v div NR_PTES_PER_PAGE cfg < NR_PTES_PER_PAGE cfg
      then map_option (\<lambda>d. d ! (v mod NR_PTES_PER_PAGE cfg)) (pt ! (v div NR_PTES_PER_PAGE cfg))
      else None)"

section \<open>Auxiliary notions and example states\<close>

text \<open>
  The state before any call: one process with pid 0 and no directory, an empty ready
  queue, every frame free.
\<close>

definition init_vm :: "config \<Rightarrow> vm" where
  "init_vm cfg = \<lparr>processes = [], current = \<lparr>pid = 0, pagetable = empty_pagetable cfg\<rparr>,
                  mapcounts = replicate (NR_PAGEFRAMES cfg) 0\<rparr>"

text \<open>A small configuration: fan-out 2 (four virtual pages) and four frames.\<close>

definition cfg4 :: config where
  "cfg4 = \<lparr>NR_PTES_PER_PAGE = 2, NR_PAGEFRAMES = 4\<rparr>"

text \<open>
  \<open>same_elsewhere cfg vpn s s'\<close>: the ready queue (hence every other process's page
  table) and every entry of the running process other than the one of \<open>vpn\<close> are the
  same in \<open>s\<close> and \<open>s'\<close>.
\<close>

definition same_elsewhere :: "config \<Rightarrow> u32 \<Rightarrow> vm \<Rightarrow> vm \<Rightarrow> bool" where
  "same_elsewhere cfg vpn s s' \<longleftrightarrow>
     processes s' = processes s \<and> pid (current s') = pid (current s) \<and>
     (\<forall>v. v \<noteq> unat vpn \<longrightarrow>
        lookup_pte cfg (pagetable (current s')) v = lookup_pte cfg (pagetable (current s)) v)"

text \<open>
  What one pass of the fork's inner loop does to the parent's entry, to the child's entry
  and to the reference counts, and the entries of a page table in slot order. They state
  the result of the two loops.
\<close>

definition cow_parent :: "pte \<Rightarrow> pte" where
  "cow_parent p = (if valid p then p\<lparr>writable := False\<rparr> else p)"

definition cow_child :: "pte \<Rightarrow> pte \<Rightarrow> pte" where
  "cow_child p c =
     (if valid p then c\<lparr>valid := True, writable := False, private := private p, pfn := pfn p\<rparr>
      else c)"

definition bump :: "u32 list \<Rightarrow> pte \<Rightarrow> u32 list" where
  "bump mc p = (if valid p then mc[unat (pfn p) := mc ! unat (pfn p) + 1] else mc)"

definition ptes_of :: "pagetable \<Rightarrow> pte list" where
  "ptes_of pt = concat (map (\<lambda>d. case d of None \<Rightarrow> [] | Some ps \<Rightarrow> ps) pt)"

text \<open>
  \<open>mappers f pt\<close>: the number of valid entries of the page table \<open>pt\<close> that hold
  frame \<open>f\<close>.
\<close>

definition mappers :: "nat \<Rightarrow> pagetable \<Rightarrow> nat" where
  "mappers f pt = length (filter (\<lambda>p. valid p \<and> unat (pfn p) = f) (ptes_of pt))"

text \<open>A configuration with a single frame, and states used as concrete inputs.\<close>

definition cfg_one :: config where
  "cfg_one = \<lparr>NR_PTES_PER_PAGE = 2, NR_PAGEFRAMES = 1\<rparr>"

definition cow_pte :: pte where
  "cow_pte = \<lparr>valid = True, writable = False, pfn = 0, private = 1\<rparr>"

definition vm_forked :: vm where
  "vm_forked = \<lparr>processes = [\<lparr>pid = 0, pagetable = [Some [cow_pte, zero_pte], None]\<rparr>],
                 current = \<lparr>pid = 1, pagetable = [Some [cow_pte, zero_pte], None]\<rparr>,
                 mapcounts = [2, 0, 0, 0]\<rparr>"

definition vm_full_shared :: vm where
  "vm_full_shared = \<lparr>processes = [\<lparr>pid = 0, pagetable = [Some [cow_pte, zero_pte], None]\<rparr>],
                      current = \<lparr>pid = 1, pagetable = [Some [cow_pte, zero_pte], None]\<rparr>,
                      mapcounts = [2]\<rparr>"

definition vm_full :: vm where
  "vm_full = \<lparr>processes = [],
               current = \<lparr>pid = 0, pagetable =
                 [Some [\<lparr>valid = True, writable = True, pfn = 0, private = 1\<rparr>, zero_pte], None]\<rparr>,
               mapcounts = [1]\<rparr>"

text \<open>
  The running process after one allocation of page 0 with write intent, before a fork.
\<close>

definition rw_pte :: pte where
  "rw_pte = \<lparr>valid = True, writable = True, pfn = 0, private = 1\<rparr>"

definition vm_one :: vm where
  "vm_one = \<lparr>processes = [],
              current = \<lparr>pid = 0, pagetable = [Some [rw_pte, zero_pte], None]\<rparr>,
              mapcounts = [1, 0, 0, 0]\<rparr>"

text \<open>
  A block that \<^verbatim>\<open>malloc\<close> hands back for the child's \<^verbatim>\<open>struct process\<close> with a
  non-null bit pattern left in the second outer slot.
\<close>

definition stale_pagetable :: pagetable where
  "stale_pagetable = [None, Some [rw_pte, rw_pte]]"

text \<open>
  The two sides of the conservation equation: the sum of the reference counts of all
  frames, and the number of valid entries in the page tables of all processes, the
  running one and the queued ones.
\<close>

definition valid_ptes :: "pagetable \<Rightarrow> nat" where
  "valid_ptes pt = length (filter valid (ptes_of pt))"

definition total_valid_ptes :: "vm \<Rightarrow> nat" where
  "total_valid_ptes s = sum_list (map (\<lambda>p. valid_ptes (pagetable p)) (current s # processes s))"

definition refcount_sum :: "vm \<Rightarrow> nat" where
  "refcount_sum s = sum_list (map unat (mapcounts s))"

definition conserved :: "vm \<Rightarrow> bool" where
  "conserved s \<longleftrightarrow> refcount_sum s = total_valid_ptes s"

text \<open>
  The invariant behind conservation: frame by frame, the count is the number of valid
  entries, over all processes, that hold the frame; a valid entry holds a frame of the
  pool; and an entry with \<open>private = 1\<close> is valid.
\<close>

definition sharers :: "nat \<Rightarrow> vm \<Rightarrow> nat" where
  "sharers f s = sum_list (map (\<lambda>p. mappers f (pagetable p)) (current s # processes s))"

definition entries_ok :: "config \<Rightarrow> pagetable \<Rightarrow> bool" where
  "entries_ok cfg pt \<longleftrightarrow>
     (\<forall>e\<in>set (ptes_of pt). (valid e \<longrightarrow> unat (pfn e) < NR_PAGEFRAMES cfg) \<and> (private e = 1 \<longrightarrow> valid e))"

definition accounted :: "config \<Rightarrow> vm \<Rightarrow> bool" where
  "accounted cfg s \<longleftrightarrow>
     wf_vm cfg s \<and>
     (\<forall>p\<in>set (current s # processes s). entries_ok cfg (pagetable p)) \<and>
     (\<forall>f<NR_PAGEFRAMES cfg. unat (mapcounts s ! f) = sharers f s)"

text \<open>
  Sequences of calls. Every block that \<^verbatim>\<open>malloc\<close> hands out is taken to be zero-filled
  here. A call is admissible when alloc_page is asked for a page of the two-level range
  that is not mapped, free_page for a mapped page, handle_page_fault for a page whose
  directory exists, and a fork happens while every reference count is below \<open>2^31\<close>.
\<close>

datatype call = Alloc u32 u32 | Free u32 | Fault u32 u32 | Switch u32

fun exec :: "config \<Rightarrow> call \<Rightarrow> vm \<Rightarrow> fault + vm" where
  "exec cfg (Alloc vpn rw) s =
     (case alloc_page cfg (zero_directory cfg) vpn rw s of Inl e \<Rightarrow> Inl e | Inr (r, s') \<Rightarrow> Inr s')"
| "exec cfg (Free vpn) s = free_page cfg vpn s"
| "exec cfg (Fault vpn rw) s =
     (case handle_page_fault cfg vpn rw s of Inl e \<Rightarrow> Inl e | Inr (b, s') \<Rightarrow> Inr s')"
| "exec cfg (Switch x) s =
     switch_process cfg (empty_pagetable cfg) (\<lambda>j. zero_directory cfg) x s"

fun admissible :: "config \<Rightarrow> call \<Rightarrow> vm \<Rightarrow> bool" where
  "admissible cfg (Alloc vpn rw) s =
     (unat vpn div NR_PTES_PER_PAGE cfg < NR_PTES_PER_PAGE cfg \<and>
      (case lookup_pte cfg (pagetable (current s)) (unat vpn) of
         None \<Rightarrow> True | Some e \<Rightarrow> \<not> valid e))"
| "admissible cfg (Free vpn) s =
     (case lookup_pte cfg (pagetable (current s)) (unat vpn) of
        None \<Rightarrow> False | Some e \<Rightarrow> valid e)"
| "admissible cfg (Fault vpn rw) s =
     (lookup_pte cfg (pagetable (current s)) (unat vpn) \<noteq> None)"
| "admissible cfg (Switch x) s =
     (case find_process x (processes s) of
        Some k \<Rightarrow> True | None \<Rightarrow> list_all (\<lambda>c. unat c < 2 ^ 31) (mapcounts s))"

fun run :: "config \<Rightarrow> call list \<Rightarrow> vm \<Rightarrow> vm option" where
  "run cfg [] s = Some s"
| "run cfg (c # cs) s =
     (if admissible cfg c s
      then (case exec cfg c s of Inl e \<Rightarrow> None | Inr s' \<Rightarrow> run cfg cs s')
      else None)"

text \<open>
  The state after page 0 was allocated twice, and the state after an allocation, a fork
  and a copy-on-write fault of the child.
\<close>

definition vm_leak :: vm where
  "vm_leak = \<lparr>processes = [],
               current = \<lparr>pid = 0, pagetable =
                 [Some [\<lparr>valid = True, writable = True, pfn = 1, private = 1\<rparr>, zero_pte], None]\<rparr>,
               mapcounts = [1, 1, 0, 0]\<rparr>"

definition vm_cow :: vm where
  "vm_cow = \<lparr>processes = [\<lparr>pid = 0, pagetable = [Some [cow_pte, zero_pte], None]\<rparr>],
              current = \<lparr>pid = 1, pagetable =
                [Some [\<lparr>valid = True, writable = True, pfn = 1, private = 1\<rparr>, zero_pte], None]\<rparr>,
              mapcounts = [1, 1, 0, 0]\<rparr>"

section \<open>Basic facts: directory update and the frame scan\<close>

lemma set_directory_simps [simp]:
  "mapcounts (set_directory j d s) = mapcounts s"
  "processes (set_directory j d s) = processes s"
  "pid (current (set_directory j d s)) = pid (current s)"
  "pagetable (current (set_directory j d s)) = (pagetable (current s))[j := Some d]"
  by (simp_all add: set_directory_def)

lemma set_directory_mapcounts_update [simp]:
  "set_directory j d (s\<lparr>mapcounts := mc\<rparr>) = (set_directory j d s)\<lparr>mapcounts := mc\<rparr>"
  by (simp add: set_directory_def)

lemma scan_free_Some:
  "scan_free n i mc = Some k \<Longrightarrow> i \<le> k \<and> k < n \<and> mc ! k = 0 \<and> (\<forall>j. i \<le> j \<and> j < k \<longrightarrow> mc ! j \<noteq> 0)"
proof (induction n i mc rule: scan_free.induct)
  case (1 n i mc)
  show ?case
  proof (cases "i < n \<and> mc ! i \<noteq> 0")
    case True
    with "1.prems" have "scan_free n (Suc i) mc = Some k"
      by (simp add: scan_free.simps [of n i])
    with "1.IH" True have *: "Suc i \<le> k \<and> k < n \<and> mc ! k = 0 \<and> (\<forall>j. Suc i \<le> j \<and> j < k \<longrightarrow> mc ! j \<noteq> 0)"
      by simp
    have "\<And>j. i \<le> j \<Longrightarrow> j < k \<Longrightarrow> mc ! j \<noteq> 0"
    proof -
      fix j assume "i \<le> j" "j < k"
      then show "mc ! j \<noteq> 0" using * True by (cases "j = i") auto
    qed
    with * show ?thesis by auto
  next
    case False
    with "1.prems" show ?thesis
      by (auto simp: scan_free.simps [of n i] split: if_splits)
  qed
qed

lemma scan_free_None:
  "scan_free n i mc = None \<Longrightarrow> i \<le> j \<Longrightarrow> j < n \<Longrightarrow> mc ! j \<noteq> 0"
proof (induction n i mc rule: scan_free.induct)
  case (1 n i mc)
  from "1.prems" have "i < n" by simp
  with "1.prems" have nz: "mc ! i \<noteq> 0" and rest: "scan_free n (Suc i) mc = None"
    by (auto simp: scan_free.simps [of n i] split: if_splits)
  show ?case
  proof (cases "j = i")
    case True
    with nz show ?thesis by simp
  next
    case False
    with "1.prems" have "Suc i \<le> j" by simp
    with "1.IH" \<open>i < n\<close> nz rest "1.prems" show ?thesis by simp
  qed
qed

lemma scan_free_all_used:
  "(\<And>j. i \<le> j \<Longrightarrow> j < n \<Longrightarrow> mc ! j \<noteq> 0) \<Longrightarrow> scan_free n i mc = None"
proof (induction n i mc rule: scan_free.induct)
  case (1 n i mc)
  show ?case
  proof (cases "i < n")
    case True
    then have "mc ! i \<noteq> 0" using "1.prems" by simp
    moreover have "scan_free n (Suc i) mc = None"
      using "1.IH" True \<open>mc ! i \<noteq> 0\<close> "1.prems" by simp
    ultimately show ?thesis using True by (simp add: scan_free.simps [of n i])
  next
    case False
    then show ?thesis by (simp add: scan_free.simps [of n i])
  qed
qed

lemma scan_free_exists:
  assumes "k < n" "mc ! k = 0"
  shows "\<exists>i. scan_free n 0 mc = Some i"
proof (cases "scan_free n 0 mc")
  case None
  from scan_free_None [OF None, of k] assms show ?thesis by simp
next
  case (Some i)
  then show ?thesis by simp
qed

section \<open>Well-formed states and the entry of a virtual page\<close>

lemma wf_vm_current:
  assumes "wf_vm cfg s"
  shows "0 < NR_PTES_PER_PAGE cfg" and "NR_PAGEFRAMES cfg < 2 ^ 31"
    and "length (mapcounts s) = NR_PAGEFRAMES cfg"
    and "length (pagetable (current s)) = NR_PTES_PER_PAGE cfg"
    and "\<And>j d. j < NR_PTES_PER_PAGE cfg \<Longrightarrow> pagetable (current s) ! j = Some d
           \<Longrightarrow> length d = NR_PTES_PER_PAGE cfg"
proof -
  from assms show "0 < NR_PTES_PER_PAGE cfg" "NR_PAGEFRAMES cfg < 2 ^ 31"
    "length (mapcounts s) = NR_PAGEFRAMES cfg"
    by (simp_all add: wf_vm_def)
  from assms have wp: "wf_pagetable cfg (pagetable (current s))"
    by (simp add: wf_vm_def)
  then show len: "length (pagetable (current s)) = NR_PTES_PER_PAGE cfg"
    by (simp add: wf_pagetable_def)
  fix j d assume "j < NR_PTES_PER_PAGE cfg" "pagetable (current s) ! j = Some d"
  with wp len have "Some d \<in> set (pagetable (current s))"
    by (metis nth_mem)
  with wp show "length d = NR_PTES_PER_PAGE cfg"
    by (auto simp: wf_pagetable_def list_all_iff split: option.splits)
qed

lemma unat_of_nat_pfn:
  "i < n \<Longrightarrow> n < 2 ^ 31 \<Longrightarrow> unat (of_nat i :: u32) = i"
  by (simp add: unat_of_nat take_bit_nat_eq_self)

lemma lookup_pte_update:
  assumes "length pt = NR_PTES_PER_PAGE cfg"
    and "v div NR_PTES_PER_PAGE cfg < NR_PTES_PER_PAGE cfg"
  shows "lookup_pte cfg (pt[v div NR_PTES_PER_PAGE cfg := Some d]) v
           = Some (d ! (v mod NR_PTES_PER_PAGE cfg))"
  using assms by (simp add: lookup_pte_def)

text \<open>The directory that alloc_page works on once the outer slot is filled.\<close>

lemma alloc_page_result:
  assumes "unat vpn div NR_PTES_PER_PAGE cfg < NR_PTES_PER_PAGE cfg"
    and "length (pagetable (current s)) = NR_PTES_PER_PAGE cfg"
    and "scan_free (NR_PAGEFRAMES cfg) 0 (mapcounts s) = Some i"
    and "d = (case pagetable (current s) ! (unat vpn div NR_PTES_PER_PAGE cfg) of
                None \<Rightarrow> fresh | Some d0 \<Rightarrow> d0)"
  shows "alloc_page cfg fresh vpn rw s =
           Inr (of_nat i,
             set_directory (unat vpn div NR_PTES_PER_PAGE cfg)
               (d[unat vpn mod NR_PTES_PER_PAGE cfg :=
                    (d ! (unat vpn mod NR_PTES_PER_PAGE cfg))\<lparr>valid := True, writable := (rw \<noteq> 1),
                       pfn := of_nat i, private := (if rw \<noteq> 1 then 1 else 0)\<rparr>])
               (s\<lparr>mapcounts := (mapcounts s)[i := mapcounts s ! i + 1]\<rparr>))"
  using assms
  by (cases "pagetable (current s) ! (unat vpn div NR_PTES_PER_PAGE cfg)")
     (simp_all add: alloc_page_def Let_def set_directory_def)

lemma alloc_page_exhausted:
  assumes "unat vpn div NR_PTES_PER_PAGE cfg < NR_PTES_PER_PAGE cfg"
    and "scan_free (NR_PAGEFRAMES cfg) 0 (mapcounts s) = None"
  shows "alloc_page cfg fresh vpn rw s =
           Inr (- 1, if pagetable (current s) ! (unat vpn div NR_PTES_PER_PAGE cfg) = None
                     then set_directory (unat vpn div NR_PTES_PER_PAGE cfg) fresh s else s)"
  using assms by (simp add: alloc_page_def Let_def)

section \<open>alloc_page takes the smallest free frame\<close>

text \<open>
  C7: in every well-formed state that has a frame with reference count zero, alloc_page
  on a virtual page number within the two-level range returns the lowest-numbered frame
  \<open>i\<close> whose count is zero at the time of the call, and the entry of that page is valid
  and holds frame \<open>i\<close> afterwards. The state is arbitrary, so this holds for each
  allocation of any sequence.
\<close>

theorem C7_alloc_smallest_pfn:
  assumes "wf_vm cfg s" and "length fresh = NR_PTES_PER_PAGE cfg"
    and "unat vpn div NR_PTES_PER_PAGE cfg < NR_PTES_PER_PAGE cfg"
    and "k < NR_PAGEFRAMES cfg" and "mapcounts s ! k = 0"
  shows "\<exists>i s'. alloc_page cfg fresh vpn rw s = Inr (of_nat i, s')
           \<and> i < NR_PAGEFRAMES cfg \<and> unat (of_nat i :: u32) = i
           \<and> mapcounts s ! i = 0 \<and> (\<forall>j<i. mapcounts s ! j \<noteq> 0)
           \<and> map_option (\<lambda>e. (valid e, pfn e)) (lookup_pte cfg (pagetable (current s')) (unat vpn))
               = Some (True, of_nat i)"
proof -
  let ?n = "NR_PTES_PER_PAGE cfg"
  let ?op = "unat vpn div ?n" and ?ip = "unat vpn mod ?n"
  note wf = wf_vm_current [OF assms(1)]
  from scan_free_exists [OF assms(4,5)] obtain i
    where i: "scan_free (NR_PAGEFRAMES cfg) 0 (mapcounts s) = Some i" by blast
  from scan_free_Some [OF i]
  have least: "i < NR_PAGEFRAMES cfg" "mapcounts s ! i = 0" "\<forall>j<i. mapcounts s ! j \<noteq> 0"
    by auto
  define d where "d = (case pagetable (current s) ! ?op of None \<Rightarrow> fresh | Some d0 \<Rightarrow> d0)"
  have len_d: "length d = ?n"
    using wf(5) [OF assms(3)] assms(2) by (auto simp: d_def split: option.splits)
  have ip: "?ip < length d"
    using wf(1) len_d by simp
  note res = alloc_page_result [OF assms(3) wf(4) i d_def, of rw]
  have "map_option (\<lambda>e. (valid e, pfn e))
          (lookup_pte cfg (pagetable (current (snd (projr (alloc_page cfg fresh vpn rw s))))) (unat vpn))
        = Some (True, of_nat i)"
    using ip by (simp add: res lookup_pte_update [OF wf(4) assms(3)])
  with res least unat_of_nat_pfn [OF least(1) wf(2)] show ?thesis
    by auto
qed

lemma wf_init_vm:
  "0 < NR_PTES_PER_PAGE cfg \<Longrightarrow> NR_PAGEFRAMES cfg < 2 ^ 31 \<Longrightarrow> wf_vm cfg (init_vm cfg)"
  by (simp add: wf_vm_def wf_pagetable_def init_vm_def empty_pagetable_def list_all_iff)

lemma wf_init4: "wf_vm cfg4 (init_vm cfg4)"
  by (rule wf_init_vm) (simp_all add: cfg4_def)

text \<open>C7 at the initial state of the small configuration, page 3, read intent.\<close>

theorem C7_alloc_smallest_pfn_witness:
  "\<exists>i s'. alloc_page cfg4 (zero_directory cfg4) 3 1 (init_vm cfg4) = Inr (of_nat i, s')
           \<and> i < NR_PAGEFRAMES cfg4 \<and> unat (of_nat i :: u32) = i
           \<and> mapcounts (init_vm cfg4) ! i = 0 \<and> (\<forall>j<i. mapcounts (init_vm cfg4) ! j \<noteq> 0)
           \<and> map_option (\<lambda>e. (valid e, pfn e)) (lookup_pte cfg4 (pagetable (current s')) (unat (3 :: u32)))
               = Some (True, of_nat i)"
proof -
  have a: "length (zero_directory cfg4) = NR_PTES_PER_PAGE cfg4" by (simp add: zero_directory_def)
  have b: "unat (3 :: u32) div NR_PTES_PER_PAGE cfg4 < NR_PTES_PER_PAGE cfg4" by (simp add: cfg4_def)
  have c: "2 < NR_PAGEFRAMES cfg4" by (simp add: cfg4_def)
  have d: "mapcounts (init_vm cfg4) ! 2 = 0" by (simp add: cfg4_def init_vm_def)
  show ?thesis by (rule C7_alloc_smallest_pfn [OF wf_init4 a b c d])
qed

lemma lookup_pte_set:
  assumes "length pt = NR_PTES_PER_PAGE cfg" and "j < NR_PTES_PER_PAGE cfg"
  shows "lookup_pte cfg (pt[j := Some d]) v =
           (if v div NR_PTES_PER_PAGE cfg = j then Some (d ! (v mod NR_PTES_PER_PAGE cfg))
            else lookup_pte cfg pt v)"
  using assms by (simp add: lookup_pte_def)

lemma lookup_pte_Some:
  assumes "v div NR_PTES_PER_PAGE cfg < NR_PTES_PER_PAGE cfg"
    and "pt ! (v div NR_PTES_PER_PAGE cfg) = Some d"
  shows "lookup_pte cfg pt v = Some (d ! (v mod NR_PTES_PER_PAGE cfg))"
  using assms by (simp add: lookup_pte_def)

lemma same_slot_other_index:
  fixes n :: nat
  assumes "v \<noteq> w" and "v div n = w div n"
  shows "v mod n \<noteq> w mod n"
  using assms by (metis div_mult_mod_eq)

lemma pte_cleared:
  "(e :: pte)\<lparr>valid := False, writable := False, private := 0, pfn := 0\<rparr> = zero_pte"
  by (cases e) (simp add: zero_pte_def)

section \<open>alloc_page: the private flag follows the writable flag\<close>

text \<open>
  C4 (amended): when alloc_page finds a free frame it makes the entry valid, stores the
  frame number, and sets \<open>writable\<close> exactly when \<open>rw\<close> differs from 1 (the read-only
  intent); \<open>private\<close> is 1 exactly in that same case and 0 for a read-only allocation.
  So the COW-eligibility flag is set when the page is allocated writable, not when it is
  allocated read-only.
\<close>

theorem C4_alloc_private_iff_writable:
  assumes "wf_vm cfg s" and "length fresh = NR_PTES_PER_PAGE cfg"
    and "unat vpn div NR_PTES_PER_PAGE cfg < NR_PTES_PER_PAGE cfg"
    and "k < NR_PAGEFRAMES cfg" and "mapcounts s ! k = 0"
  shows "\<exists>r s' e. alloc_page cfg fresh vpn rw s = Inr (r, s')
           \<and> lookup_pte cfg (pagetable (current s')) (unat vpn) = Some e
           \<and> valid e \<and> pfn e = r
           \<and> writable e = (rw \<noteq> 1)
           \<and> private e = (if rw \<noteq> 1 then 1 else 0)
           \<and> (private e = 1) = writable e"
proof -
  let ?n = "NR_PTES_PER_PAGE cfg"
  let ?op = "unat vpn div ?n" and ?ip = "unat vpn mod ?n"
  note wf = wf_vm_current [OF assms(1)]
  from scan_free_exists [OF assms(4,5)] obtain i
    where i: "scan_free (NR_PAGEFRAMES cfg) 0 (mapcounts s) = Some i" by blast
  define d where "d = (case pagetable (current s) ! ?op of None \<Rightarrow> fresh | Some d0 \<Rightarrow> d0)"
  have len_d: "length d = ?n"
    using wf(5) [OF assms(3)] assms(2) by (auto simp: d_def split: option.splits)
  have ip: "?ip < length d"
    using wf(1) len_d by simp
  note res = alloc_page_result [OF assms(3) wf(4) i d_def, of rw]
  define e where "e = (d ! ?ip)\<lparr>valid := True, writable := (rw \<noteq> 1), pfn := of_nat i,
                          private := (if rw \<noteq> 1 then 1 else 0)\<rparr>"
  have "lookup_pte cfg (pagetable (current (snd (projr (alloc_page cfg fresh vpn rw s))))) (unat vpn)
        = Some e"
    using ip by (simp add: res lookup_pte_update [OF wf(4) assms(3)] e_def)
  moreover have "valid e \<and> pfn e = of_nat i \<and> writable e = (rw \<noteq> 1)
      \<and> private e = (if rw \<noteq> 1 then 1 else 0) \<and> (private e = 1) = writable e"
    by (simp add: e_def)
  ultimately show ?thesis using res by auto
qed

section \<open>free_page\<close>

text \<open>
  C8: free_page on a valid mapping of the running process (directory present, frame
  number within the pool) returns normally; afterwards the entry has \<open>valid\<close>,
  \<open>writable\<close> and \<open>private\<close> cleared and frame number zero, the count of the frame
  the entry held before the call is one less (the count is read through the old frame
  number), every other count is unchanged, the ready queue with every other process's
  page table is unchanged, and so is every other entry of the running process.
\<close>

theorem C8_free_page_clears_and_decrements:
  assumes "wf_vm cfg s"
    and "unat vpn div NR_PTES_PER_PAGE cfg < NR_PTES_PER_PAGE cfg"
    and "pagetable (current s) ! (unat vpn div NR_PTES_PER_PAGE cfg) = Some d"
    and "valid (d ! (unat vpn mod NR_PTES_PER_PAGE cfg))"
    and "f = unat (pfn (d ! (unat vpn mod NR_PTES_PER_PAGE cfg)))"
    and "f < NR_PAGEFRAMES cfg"
  shows "\<exists>s'. free_page cfg vpn s = Inr s'
           \<and> lookup_pte cfg (pagetable (current s')) (unat vpn) = Some zero_pte
           \<and> mapcounts s' = (mapcounts s)[f := mapcounts s ! f - 1]
           \<and> mapcounts s' ! f = mapcounts s ! f - 1
           \<and> (\<forall>g. g \<noteq> f \<longrightarrow> mapcounts s' ! g = mapcounts s ! g)
           \<and> processes s' = processes s
           \<and> pid (current s') = pid (current s)
           \<and> (\<forall>v. v \<noteq> unat vpn \<longrightarrow>
                 lookup_pte cfg (pagetable (current s')) v = lookup_pte cfg (pagetable (current s)) v)"
proof -
  let ?n = "NR_PTES_PER_PAGE cfg"
  let ?op = "unat vpn div ?n" and ?ip = "unat vpn mod ?n"
  note wf = wf_vm_current [OF assms(1)]
  have len_d: "length d = ?n" by (rule wf(5) [OF assms(2,3)])
  have ip: "?ip < length d" using wf(1) len_d by simp
  define s' where "s' = set_directory ?op (d[?ip := zero_pte])
                          (s\<lparr>mapcounts := (mapcounts s)[f := mapcounts s ! f - 1]\<rparr>)"
  have res: "free_page cfg vpn s = Inr s'"
    using assms(2,3,5,6) wf(3)
    by (simp add: free_page_def Let_def s'_def pte_cleared)
  have here: "lookup_pte cfg (pagetable (current s')) (unat vpn) = Some zero_pte"
    using ip by (simp add: s'_def lookup_pte_set [OF wf(4) assms(2)])
  have other: "lookup_pte cfg (pagetable (current s')) v = lookup_pte cfg (pagetable (current s)) v"
    if "v \<noteq> unat vpn" for v
  proof (cases "v div ?n = ?op")
    case True
    with that have "v mod ?n \<noteq> ?ip" by (rule same_slot_other_index)
    with True assms(2,3) show ?thesis
      by (simp add: s'_def lookup_pte_set [OF wf(4) assms(2)] lookup_pte_Some)
  next
    case False
    then show ?thesis
      by (simp add: s'_def lookup_pte_set [OF wf(4) assms(2)])
  qed
  have cnt: "mapcounts s' ! f = mapcounts s ! f - 1"
    using assms(6) wf(3) by (simp add: s'_def)
  show ?thesis
    using res here other cnt by (simp add: s'_def)
qed

section \<open>handle_page_fault\<close>

lemma handle_page_fault_not_private:
  assumes "unat vpn div NR_PTES_PER_PAGE cfg < NR_PTES_PER_PAGE cfg"
    and "pagetable (current s) ! (unat vpn div NR_PTES_PER_PAGE cfg) = Some d"
    and "private (d ! (unat vpn mod NR_PTES_PER_PAGE cfg)) \<noteq> 1"
  shows "handle_page_fault cfg vpn rw s = Inr (False, s)"
  using assms by (simp add: handle_page_fault_def Let_def)

lemma handle_page_fault_exclusive:
  assumes "unat vpn div NR_PTES_PER_PAGE cfg < NR_PTES_PER_PAGE cfg"
    and "pagetable (current s) ! (unat vpn div NR_PTES_PER_PAGE cfg) = Some d"
    and "e = d ! (unat vpn mod NR_PTES_PER_PAGE cfg)"
    and "private e = 1" and "unat (pfn e) < length (mapcounts s)"
    and "mapcounts s ! unat (pfn e) = 1"
  shows "handle_page_fault cfg vpn rw s =
           Inr (True, set_directory (unat vpn div NR_PTES_PER_PAGE cfg)
                        (d[unat vpn mod NR_PTES_PER_PAGE cfg := e\<lparr>writable := True\<rparr>]) s)"
  using assms by (simp add: handle_page_fault_def Let_def)

lemma handle_page_fault_shared:
  assumes "unat vpn div NR_PTES_PER_PAGE cfg < NR_PTES_PER_PAGE cfg"
    and "pagetable (current s) ! (unat vpn div NR_PTES_PER_PAGE cfg) = Some d"
    and "e = d ! (unat vpn mod NR_PTES_PER_PAGE cfg)"
    and "private e = 1" and "unat (pfn e) < length (mapcounts s)"
    and "mapcounts s ! unat (pfn e) \<noteq> 1"
    and "scan_free (NR_PAGEFRAMES cfg) 0 (mapcounts s) = Some i"
  shows "handle_page_fault cfg vpn rw s =
           Inr (True, set_directory (unat vpn div NR_PTES_PER_PAGE cfg)
                        (d[unat vpn mod NR_PTES_PER_PAGE cfg := e\<lparr>writable := True, pfn := of_nat i\<rparr>])
                        (s\<lparr>mapcounts := ((mapcounts s)[i := mapcounts s ! i + 1])
                               [unat (pfn e) := (mapcounts s)[i := mapcounts s ! i + 1] ! unat (pfn e) - 1]\<rparr>))"
  using assms by (simp add: handle_page_fault_def Let_def)

lemma handle_page_fault_no_frame:
  assumes "unat vpn div NR_PTES_PER_PAGE cfg < NR_PTES_PER_PAGE cfg"
    and "pagetable (current s) ! (unat vpn div NR_PTES_PER_PAGE cfg) = Some d"
    and "e = d ! (unat vpn mod NR_PTES_PER_PAGE cfg)"
    and "unat (pfn e) < length (mapcounts s)"
    and "mapcounts s ! unat (pfn e) \<noteq> 1"
    and "scan_free (NR_PAGEFRAMES cfg) 0 (mapcounts s) = None"
  shows "handle_page_fault cfg vpn rw s = Inr (False, s)"
  using assms by (simp add: handle_page_fault_def Let_def)

lemma lookup_pte_current_set:
  assumes "wf_vm cfg s" and "unat vpn div NR_PTES_PER_PAGE cfg < NR_PTES_PER_PAGE cfg"
    and "pagetable (current s) ! (unat vpn div NR_PTES_PER_PAGE cfg) = Some d"
    and "s' = set_directory (unat vpn div NR_PTES_PER_PAGE cfg)
                (d[unat vpn mod NR_PTES_PER_PAGE cfg := e']) s0"
    and "pagetable (current s0) = pagetable (current s)"
  shows "lookup_pte cfg (pagetable (current s')) (unat vpn) = Some e'"
    and "v \<noteq> unat vpn \<Longrightarrow>
           lookup_pte cfg (pagetable (current s')) v = lookup_pte cfg (pagetable (current s)) v"
proof -
  let ?n = "NR_PTES_PER_PAGE cfg"
  let ?op = "unat vpn div ?n" and ?ip = "unat vpn mod ?n"
  note wf = wf_vm_current [OF assms(1)]
  have len_d: "length d = ?n" by (rule wf(5) [OF assms(2,3)])
  have ip: "?ip < length d" using wf(1) len_d by simp
  show "lookup_pte cfg (pagetable (current s')) (unat vpn) = Some e'"
    using ip by (simp add: assms(4,5) lookup_pte_set [OF wf(4) assms(2)])
  show "lookup_pte cfg (pagetable (current s')) v = lookup_pte cfg (pagetable (current s)) v"
    if "v \<noteq> unat vpn"
  proof (cases "v div ?n = ?op")
    case True
    with that have "v mod ?n \<noteq> ?ip" by (rule same_slot_other_index)
    with True assms(2,3) show ?thesis
      by (simp add: assms(4,5) lookup_pte_set [OF wf(4) assms(2)] lookup_pte_Some)
  next
    case False
    then show ?thesis
      by (simp add: assms(4,5) lookup_pte_set [OF wf(4) assms(2)])
  qed
qed

text \<open>
  C2: let the directory of \<open>vpn\<close> exist in the running process and \<open>e\<close> be its entry,
  holding frame \<open>f\<close>. If \<open>private e\<close> is not 1, handle_page_fault returns false and the
  state is unchanged. If it is 1 and the count of \<open>f\<close> is exactly 1, it returns true, the
  entry only becomes writable, and no count changes. If it is 1, the count of \<open>f\<close> is
  greater than 1 and some frame is free, it returns true, the entry is bound to the
  lowest-numbered frame \<open>i\<close> with count zero and made writable, the count of \<open>i\<close>
  becomes 1, the count of \<open>f\<close> drops by one, and every other count, every other entry
  and every other process are unchanged.
\<close>

theorem C2_handle_page_fault_cases:
  assumes "wf_vm cfg s"
    and "unat vpn div NR_PTES_PER_PAGE cfg < NR_PTES_PER_PAGE cfg"
    and "pagetable (current s) ! (unat vpn div NR_PTES_PER_PAGE cfg) = Some d"
    and "e = d ! (unat vpn mod NR_PTES_PER_PAGE cfg)"
    and "f = unat (pfn e)"
  shows "(private e \<noteq> 1 \<longrightarrow> handle_page_fault cfg vpn rw s = Inr (False, s))
       \<and> (private e = 1 \<and> f < NR_PAGEFRAMES cfg \<and> mapcounts s ! f = 1 \<longrightarrow>
            (\<exists>s'. handle_page_fault cfg vpn rw s = Inr (True, s')
               \<and> lookup_pte cfg (pagetable (current s')) (unat vpn) = Some (e\<lparr>writable := True\<rparr>)
               \<and> mapcounts s' = mapcounts s
               \<and> same_elsewhere cfg vpn s s'))
       \<and> (private e = 1 \<and> f < NR_PAGEFRAMES cfg \<and> 1 < unat (mapcounts s ! f)
            \<and> k < NR_PAGEFRAMES cfg \<and> mapcounts s ! k = 0 \<longrightarrow>
            (\<exists>i s'. handle_page_fault cfg vpn rw s = Inr (True, s')
               \<and> i < NR_PAGEFRAMES cfg \<and> unat (of_nat i :: u32) = i
               \<and> mapcounts s ! i = 0 \<and> (\<forall>j<i. mapcounts s ! j \<noteq> 0)
               \<and> lookup_pte cfg (pagetable (current s')) (unat vpn)
                    = Some (e\<lparr>writable := True, pfn := of_nat i\<rparr>)
               \<and> length (mapcounts s') = length (mapcounts s)
               \<and> mapcounts s' ! i = 1
               \<and> mapcounts s' ! f = mapcounts s ! f - 1
               \<and> (\<forall>g. g \<noteq> i \<and> g \<noteq> f \<longrightarrow> mapcounts s' ! g = mapcounts s ! g)
               \<and> same_elsewhere cfg vpn s s'))"
proof (intro conjI impI)
  let ?n = "NR_PTES_PER_PAGE cfg"
  let ?op = "unat vpn div ?n" and ?ip = "unat vpn mod ?n"
  note wf = wf_vm_current [OF assms(1)]
  show "handle_page_fault cfg vpn rw s = Inr (False, s)" if "private e \<noteq> 1"
    using that assms(4) by (simp add: handle_page_fault_not_private [OF assms(2,3)])
  show "\<exists>s'. handle_page_fault cfg vpn rw s = Inr (True, s')
          \<and> lookup_pte cfg (pagetable (current s')) (unat vpn) = Some (e\<lparr>writable := True\<rparr>)
          \<and> mapcounts s' = mapcounts s \<and> same_elsewhere cfg vpn s s'"
    if h: "private e = 1 \<and> f < NR_PAGEFRAMES cfg \<and> mapcounts s ! f = 1"
  proof -
    define s' where "s' = set_directory ?op (d[?ip := e\<lparr>writable := True\<rparr>]) s"
    have res: "handle_page_fault cfg vpn rw s = Inr (True, s')"
      unfolding s'_def using h assms(5) wf(3)
      by (intro handle_page_fault_exclusive [OF assms(2,3,4)]) simp_all
    note lk = lookup_pte_current_set [OF assms(1,2,3) s'_def refl]
    show ?thesis
      using res lk by (simp add: same_elsewhere_def s'_def)
  qed
  show "\<exists>i s'. handle_page_fault cfg vpn rw s = Inr (True, s')
          \<and> i < NR_PAGEFRAMES cfg \<and> unat (of_nat i :: u32) = i
          \<and> mapcounts s ! i = 0 \<and> (\<forall>j<i. mapcounts s ! j \<noteq> 0)
          \<and> lookup_pte cfg (pagetable (current s')) (unat vpn)
               = Some (e\<lparr>writable := True, pfn := of_nat i\<rparr>)
          \<and> length (mapcounts s') = length (mapcounts s)
          \<and> mapcounts s' ! i = 1
          \<and> mapcounts s' ! f = mapcounts s ! f - 1
          \<and> (\<forall>g. g \<noteq> i \<and> g \<noteq> f \<longrightarrow> mapcounts s' ! g = mapcounts s ! g)
          \<and> same_elsewhere cfg vpn s s'"
    if h: "private e = 1 \<and> f < NR_PAGEFRAMES cfg \<and> 1 < unat (mapcounts s ! f)
            \<and> k < NR_PAGEFRAMES cfg \<and> mapcounts s ! k = 0"
  proof -
    from h scan_free_exists [of k "NR_PAGEFRAMES cfg" "mapcounts s"] obtain i
      where i: "scan_free (NR_PAGEFRAMES cfg) 0 (mapcounts s) = Some i" by blast
    from scan_free_Some [OF i]
    have least: "i < NR_PAGEFRAMES cfg" "mapcounts s ! i = 0" "\<forall>j<i. mapcounts s ! j \<noteq> 0"
      by auto
    from h have ne1: "mapcounts s ! f \<noteq> 1" and ne0: "mapcounts s ! f \<noteq> 0" by auto
    with least have fi: "f \<noteq> i" by auto
    define mc where "mc = ((mapcounts s)[i := mapcounts s ! i + 1])
                              [f := (mapcounts s)[i := mapcounts s ! i + 1] ! f - 1]"
    define s' where "s' = set_directory ?op (d[?ip := e\<lparr>writable := True, pfn := of_nat i\<rparr>])
                            (s\<lparr>mapcounts := mc\<rparr>)"
    have res: "handle_page_fault cfg vpn rw s = Inr (True, s')"
      unfolding s'_def mc_def assms(5) using h assms(5) wf(3) ne1 i
      by (intro handle_page_fault_shared [OF assms(2,3,4)]) simp_all
    have pt0: "pagetable (current (s\<lparr>mapcounts := mc\<rparr>)) = pagetable (current s)" by simp
    note lk = lookup_pte_current_set [OF assms(1,2,3) s'_def pt0]
    have mcs: "mapcounts s' = mc" by (simp add: s'_def)
    have c1: "mc ! i = 1" using fi least wf(3) by (simp add: mc_def)
    have c2: "mc ! f = mapcounts s ! f - 1" using fi h wf(3) by (simp add: mc_def)
    have c3: "\<forall>g. g \<noteq> i \<and> g \<noteq> f \<longrightarrow> mc ! g = mapcounts s ! g" by (simp add: mc_def)
    have c4: "length mc = length (mapcounts s)" by (simp add: mc_def)
    have se: "same_elsewhere cfg vpn s s'"
      using lk(2) by (simp add: same_elsewhere_def s'_def)
    show ?thesis
      using res least unat_of_nat_pfn [OF least(1) wf(2)] lk(1) mcs c1 c2 c3 c4 se
      by (intro exI [of _ i] exI [of _ s']) simp
  qed
qed

section \<open>No free frame\<close>

text \<open>
  C6 (amended): when every frame has a nonzero count, alloc_page returns \<open>- 1\<close> and
  changes no reference count, no process of the ready queue and no outer slot other than
  the one of \<open>vpn\<close>; that slot keeps its directory when it has one (then the state is
  unchanged), and receives the newly allocated directory when it was null. In the same
  states handle_page_fault on a private entry whose frame has count greater than 1
  returns false and leaves the state unchanged.
\<close>

theorem C6_exhaustion:
  assumes "wf_vm cfg s"
    and "unat vpn div NR_PTES_PER_PAGE cfg < NR_PTES_PER_PAGE cfg"
    and "\<forall>i<NR_PAGEFRAMES cfg. mapcounts s ! i \<noteq> 0"
  shows "(\<exists>s'. alloc_page cfg fresh vpn rw s = Inr (- 1, s')
            \<and> mapcounts s' = mapcounts s \<and> processes s' = processes s
            \<and> pid (current s') = pid (current s)
            \<and> (\<forall>j. j \<noteq> unat vpn div NR_PTES_PER_PAGE cfg \<longrightarrow>
                  pagetable (current s') ! j = pagetable (current s) ! j)
            \<and> pagetable (current s') ! (unat vpn div NR_PTES_PER_PAGE cfg)
                = (case pagetable (current s) ! (unat vpn div NR_PTES_PER_PAGE cfg) of
                     None \<Rightarrow> Some fresh | Some d \<Rightarrow> Some d)
            \<and> (pagetable (current s) ! (unat vpn div NR_PTES_PER_PAGE cfg) \<noteq> None \<longrightarrow> s' = s))
       \<and> (\<forall>d. pagetable (current s) ! (unat vpn div NR_PTES_PER_PAGE cfg) = Some d
              \<and> private (d ! (unat vpn mod NR_PTES_PER_PAGE cfg)) = 1
              \<and> unat (pfn (d ! (unat vpn mod NR_PTES_PER_PAGE cfg))) < NR_PAGEFRAMES cfg
              \<and> 1 < unat (mapcounts s ! unat (pfn (d ! (unat vpn mod NR_PTES_PER_PAGE cfg))))
            \<longrightarrow> handle_page_fault cfg vpn rw s = Inr (False, s))"
proof -
  let ?n = "NR_PTES_PER_PAGE cfg"
  let ?op = "unat vpn div ?n" and ?ip = "unat vpn mod ?n"
  note wf = wf_vm_current [OF assms(1)]
  have none: "scan_free (NR_PAGEFRAMES cfg) 0 (mapcounts s) = None"
    using assms(3) by (intro scan_free_all_used) simp
  note a = alloc_page_exhausted [OF assms(2) none, of fresh rw]
  have A: "\<exists>s'. alloc_page cfg fresh vpn rw s = Inr (- 1, s')
            \<and> mapcounts s' = mapcounts s \<and> processes s' = processes s
            \<and> pid (current s') = pid (current s)
            \<and> (\<forall>j. j \<noteq> ?op \<longrightarrow> pagetable (current s') ! j = pagetable (current s) ! j)
            \<and> pagetable (current s') ! ?op
                = (case pagetable (current s) ! ?op of None \<Rightarrow> Some fresh | Some d \<Rightarrow> Some d)
            \<and> (pagetable (current s) ! ?op \<noteq> None \<longrightarrow> s' = s)"
    using assms(2) wf(4) by (cases "pagetable (current s) ! ?op") (simp_all add: a)
  have B: "handle_page_fault cfg vpn rw s = Inr (False, s)"
    if "pagetable (current s) ! ?op = Some d" "unat (pfn (d ! ?ip)) < NR_PAGEFRAMES cfg"
       "1 < unat (mapcounts s ! unat (pfn (d ! ?ip)))" for d
    using that wf(3)
    by (intro handle_page_fault_no_frame [OF assms(2) that(1) refl _ _ none]) auto
  from A B show ?thesis by blast
qed

section \<open>switch_process to a process of the ready queue\<close>

lemma find_process_Some:
  "find_process x ps = Some k \<Longrightarrow> k < length ps \<and> pid (ps ! k) = x \<and> (\<forall>j<k. pid (ps ! j) \<noteq> x)"
proof (induction ps arbitrary: k)
  case Nil
  then show ?case by simp
next
  case (Cons p ps)
  show ?case
  proof (cases "pid p = x")
    case True
    with Cons.prems show ?thesis by simp
  next
    case False
    with Cons.prems obtain k' where k': "find_process x ps = Some k'" "k = Suc k'"
      by auto
    from Cons.IH [OF k'(1)] False k'(2) show ?thesis
      by (auto simp: nth_Cons split: nat.splits)
  qed
qed

lemma find_process_None:
  "find_process x ps = None \<longleftrightarrow> x \<notin> pid ` set ps"
  by (induction ps) auto

lemma find_process_append_last:
  "find_process x ps = None \<Longrightarrow> pid p = x \<Longrightarrow> find_process x (ps @ [p]) = Some (length ps)"
  by (induction ps) (auto split: if_splits)

lemma list_del_append_last:
  "k < length xs \<Longrightarrow> list_del k (xs @ [y]) = list_del k xs @ [y]"
  by (simp add: list_del_def)

lemma list_del_last:
  "list_del (length xs) (xs @ [y] @ zs) = xs @ zs"
  by (simp add: list_del_def)

lemma mset_list_del:
  "k < length xs \<Longrightarrow> add_mset (xs ! k) (mset (list_del k xs)) = mset xs"
proof -
  assume k: "k < length xs"
  then have "xs = take k xs @ xs ! k # drop (Suc k) xs"
    by (simp add: id_take_nth_drop)
  then have "mset xs = mset (take k xs @ xs ! k # drop (Suc k) xs)" by simp
  then show ?thesis by (simp add: list_del_def)
qed

lemma set_list_del_subset: "set (list_del k xs) \<subseteq> set xs"
  by (auto simp: list_del_def dest: in_set_takeD in_set_dropD)

lemma switch_process_found:
  assumes "find_process x (processes s) = Some k"
  shows "switch_process cfg fresh_pt fresh x s =
           Inr (s\<lparr>processes := list_del k (processes s) @ [current s],
                  current := processes s ! k\<rparr>)"
  using assms find_process_Some [OF assms]
  by (simp add: switch_process_def list_del_append_last)

text \<open>
  C9: switch_process to a pid \<open>b\<close> found in the ready queue returns normally and changes
  no reference count; the processes (running one and queue together) are the same ones
  with the same page tables, only their places change: the found process becomes the
  running one and the old running process goes to the tail of the queue. If moreover no
  queued process carries the pid of the old running process, switching back to that pid
  makes the running process, pid and page table, and the reference counts exactly what
  they were before the first switch. \<open>ptbr\<close> designates the page table of the new
  running process.
\<close>

theorem C9_switch_round_trip:
  assumes "find_process b (processes s) = Some k"
  shows "\<exists>s'. switch_process cfg fresh_pt fresh b s = Inr s'
           \<and> mapcounts s' = mapcounts s
           \<and> current s' = processes s ! k \<and> pid (current s') = b
           \<and> ptbr s' = pagetable (processes s ! k)
           \<and> processes s' = list_del k (processes s) @ [current s]
           \<and> mset (current s' # processes s') = mset (current s # processes s)
           \<and> (find_process (pid (current s)) (processes s) = None \<longrightarrow>
                (\<exists>s''. switch_process cfg fresh_pt' fresh' (pid (current s)) s' = Inr s''
                   \<and> current s'' = current s
                   \<and> mapcounts s'' = mapcounts s
                   \<and> processes s'' = list_del k (processes s) @ [processes s ! k]))"
proof -
  define s' where "s' = s\<lparr>processes := list_del k (processes s) @ [current s],
                          current := processes s ! k\<rparr>"
  note fp = find_process_Some [OF assms]
  have res: "switch_process cfg fresh_pt fresh b s = Inr s'"
    unfolding s'_def by (rule switch_process_found [OF assms])
  have perm: "mset (current s' # processes s') = mset (current s # processes s)"
    using mset_list_del [of k "processes s"] fp by (simp add: s'_def)
  have again: "\<exists>s''. switch_process cfg fresh_pt' fresh' (pid (current s)) s' = Inr s''
                \<and> current s'' = current s \<and> mapcounts s'' = mapcounts s
                \<and> processes s'' = list_del k (processes s) @ [processes s ! k]"
    if none: "find_process (pid (current s)) (processes s) = None"
  proof -
    let ?rest = "list_del k (processes s)"
    have "pid (current s) \<notin> pid ` set ?rest"
      using none set_list_del_subset [of k "processes s"]
      by (auto simp: find_process_None)
    then have "find_process (pid (current s)) ?rest = None"
      by (simp add: find_process_None)
    then have found: "find_process (pid (current s)) (processes s') = Some (length ?rest)"
      by (simp add: s'_def find_process_append_last)
    have "switch_process cfg fresh_pt' fresh' (pid (current s)) s' =
            Inr (s'\<lparr>processes := list_del (length ?rest) (processes s') @ [current s'],
                    current := processes s' ! length ?rest\<rparr>)"
      by (rule switch_process_found [OF found])
    moreover have "list_del (length ?rest) (processes s') = ?rest"
      using list_del_last [of ?rest "current s" "[]"] by (simp add: s'_def)
    ultimately show ?thesis
      by (simp add: s'_def)
  qed
  show ?thesis
    using res perm again fp by (simp add: s'_def ptbr_def)
qed

section \<open>The fork loops\<close>

lemma cow_valid:
  "valid p \<Longrightarrow> cow_parent p = p\<lparr>writable := False\<rparr>"
  "valid p \<Longrightarrow> cow_child p c = c\<lparr>valid := True, writable := False, private := private p, pfn := pfn p\<rparr>"
  "valid p \<Longrightarrow> bump mc p = mc[unat (pfn p) := mc ! unat (pfn p) + 1]"
  by (simp_all add: cow_parent_def cow_child_def bump_def)

lemma cow_invalid:
  "\<not> valid p \<Longrightarrow> cow_parent p = p"
  "\<not> valid p \<Longrightarrow> cow_child p c = c"
  "\<not> valid p \<Longrightarrow> bump mc p = mc"
  by (simp_all add: cow_parent_def cow_child_def bump_def)

lemma length_bump [simp]: "length (bump mc p) = length mc"
  by (simp add: bump_def)

lemma length_foldl_bump [simp]: "length (foldl bump mc ps) = length mc"
  by (induction ps arbitrary: mc) simp_all

lemma ptes_of_simps [simp]:
  "ptes_of [] = []"
  "ptes_of (None # pt) = ptes_of pt"
  "ptes_of (Some d # pt) = d @ ptes_of pt"
  by (simp_all add: ptes_of_def)

lemma fork_ptes_result:
  assumes "length pd = n" and "length cd = n"
    and "\<forall>p\<in>set (drop q pd). valid p \<longrightarrow> unat (pfn p) < length mc"
  shows "fork_ptes n q pd cd mc =
           Inr (take q pd @ map cow_parent (drop q pd),
                take q cd @ map2 cow_child (drop q pd) (drop q cd),
                foldl bump mc (drop q pd))"
  using assms
proof (induction "n - q" arbitrary: q pd cd mc)
  case 0
  then show ?case by (simp add: fork_ptes.simps [of n q])
next
  case (Suc m)
  then have q: "q < n" by simp
  with Suc.prems have dp: "drop q pd = pd ! q # drop (Suc q) pd"
    and dc: "drop q cd = cd ! q # drop (Suc q) cd"
    by (simp_all add: Cons_nth_drop_Suc)
  show ?case
  proof (cases "valid (pd ! q)")
    case False
    have "fork_ptes n (Suc q) pd cd mc =
            Inr (take (Suc q) pd @ map cow_parent (drop (Suc q) pd),
                 take (Suc q) cd @ map2 cow_child (drop (Suc q) pd) (drop (Suc q) cd),
                 foldl bump mc (drop (Suc q) pd))"
      using Suc.hyps(2) Suc.prems dp by (intro Suc.hyps(1)) auto
    with q False Suc.prems(1,2) show ?thesis
      by (simp add: fork_ptes.simps [of n q] dp dc take_Suc_conv_app_nth cow_invalid)
  next
    case True
    let ?p1 = "(pd ! q)\<lparr>writable := False\<rparr>"
    let ?c2 = "(cd ! q)\<lparr>valid := True, writable := False, private := private (pd ! q), pfn := pfn (pd ! q)\<rparr>"
    let ?f = "unat (pfn (pd ! q))"
    let ?mc = "mc[?f := mc ! ?f + 1]"
    from True Suc.prems(3) dp have f: "?f < length mc" by simp
    have "fork_ptes n (Suc q) (pd[q := ?p1]) (cd[q := ?c2]) ?mc =
            Inr (take (Suc q) (pd[q := ?p1]) @ map cow_parent (drop (Suc q) (pd[q := ?p1])),
                 take (Suc q) (cd[q := ?c2])
                   @ map2 cow_child (drop (Suc q) (pd[q := ?p1])) (drop (Suc q) (cd[q := ?c2])),
                 foldl bump ?mc (drop (Suc q) (pd[q := ?p1])))"
      using Suc.hyps(2) Suc.prems dp by (intro Suc.hyps(1)) auto
    with q True f Suc.prems(1,2) show ?thesis
      by (simp add: fork_ptes.simps [of n q] dp dc take_Suc_conv_app_nth cow_valid Let_def)
  qed
qed

lemma fork_ptes_all:
  assumes "length pd = n" and "length cd = n"
    and "\<forall>p\<in>set pd. valid p \<longrightarrow> unat (pfn p) < length mc"
  shows "fork_ptes n 0 pd cd mc = Inr (map cow_parent pd, map2 cow_child pd cd, foldl bump mc pd)"
  using fork_ptes_result [of pd n cd 0 mc] assms by simp

lemma ptes_of_drop:
  "j < length pt \<Longrightarrow> ptes_of (drop j pt)
     = (case pt ! j of None \<Rightarrow> [] | Some d \<Rightarrow> d) @ ptes_of (drop (Suc j) pt)"
  by (simp add: Cons_nth_drop_Suc [symmetric] ptes_of_def)

lemma fork_dirs_result:
  assumes "length ppt = n" and "length cpt = n"
    and "\<forall>d. Some d \<in> set (drop j ppt) \<longrightarrow>
           length d = n \<and> (\<forall>p\<in>set d. valid p \<longrightarrow> unat (pfn p) < length mc)"
    and "\<forall>i<n. length (fresh i) = n"
  shows "\<exists>cpt'. fork_dirs n j ppt cpt fresh mc =
             Inr (take j ppt @ map (map_option (map cow_parent)) (drop j ppt), cpt',
                  foldl bump mc (ptes_of (drop j ppt)))
           \<and> length cpt' = n
           \<and> (\<forall>i<n. cpt' ! i =
                (if j \<le> i
                 then (case ppt ! i of None \<Rightarrow> cpt ! i
                       | Some pd \<Rightarrow> Some (map2 cow_child pd (fresh i)))
                 else cpt ! i))"
  using assms
proof (induction "n - j" arbitrary: j ppt cpt mc)
  case 0
  then show ?case by (simp add: fork_dirs.simps [of n j])
next
  case (Suc m)
  then have j: "j < n" by simp
  with Suc.prems have dp: "drop j ppt = ppt ! j # drop (Suc j) ppt"
    by (simp add: Cons_nth_drop_Suc)
  show ?case
  proof (cases "ppt ! j")
    case None
    have "\<exists>cpt'. fork_dirs n (Suc j) ppt cpt fresh mc =
             Inr (take (Suc j) ppt @ map (map_option (map cow_parent)) (drop (Suc j) ppt), cpt',
                  foldl bump mc (ptes_of (drop (Suc j) ppt)))
           \<and> length cpt' = n
           \<and> (\<forall>i<n. cpt' ! i =
                (if Suc j \<le> i
                 then (case ppt ! i of None \<Rightarrow> cpt ! i
                       | Some pd \<Rightarrow> Some (map2 cow_child pd (fresh i)))
                 else cpt ! i))"
      using Suc.hyps(2) Suc.prems dp by (intro Suc.hyps(1)) auto
    then obtain cpt' where c:
      "fork_dirs n (Suc j) ppt cpt fresh mc =
             Inr (take (Suc j) ppt @ map (map_option (map cow_parent)) (drop (Suc j) ppt), cpt',
                  foldl bump mc (ptes_of (drop (Suc j) ppt)))"
      "length cpt' = n"
      "\<forall>i<n. cpt' ! i =
                (if Suc j \<le> i
                 then (case ppt ! i of None \<Rightarrow> cpt ! i
                       | Some pd \<Rightarrow> Some (map2 cow_child pd (fresh i)))
                 else cpt ! i)"
      by blast
    have pw: "\<forall>i<n. cpt' ! i =
                (if j \<le> i
                 then (case ppt ! i of None \<Rightarrow> cpt ! i
                       | Some pd \<Rightarrow> Some (map2 cow_child pd (fresh i)))
                 else cpt ! i)"
    proof (intro allI impI)
      fix i assume "i < n"
      with c(3) None show "cpt' ! i =
                (if j \<le> i
                 then (case ppt ! i of None \<Rightarrow> cpt ! i
                       | Some pd \<Rightarrow> Some (map2 cow_child pd (fresh i)))
                 else cpt ! i)"
        by (cases "i = j") (auto split: option.splits)
    qed
    from j None Suc.prems(1) c(1,2) pw show ?thesis
      by (simp add: fork_dirs.simps [of n j] dp take_Suc_conv_app_nth)
  next
    case (Some pd)
    with j Suc.prems(1) have mem: "Some pd \<in> set (drop j ppt)"
      by (metis dp list.set_intros(1))
    with Suc.prems(3) have pd: "length pd = n"
      "\<forall>p\<in>set pd. valid p \<longrightarrow> unat (pfn p) < length mc" by auto
    let ?pd' = "map cow_parent pd" and ?cd' = "map2 cow_child pd (fresh j)"
    let ?mc' = "foldl bump mc pd"
    have inner: "fork_ptes n 0 pd (fresh j) mc = Inr (?pd', ?cd', ?mc')"
      using pd Suc.prems(4) j by (intro fork_ptes_all) auto
    have "\<exists>cpt'. fork_dirs n (Suc j) (ppt[j := Some ?pd']) (cpt[j := Some ?cd']) fresh ?mc' =
             Inr (take (Suc j) (ppt[j := Some ?pd'])
                    @ map (map_option (map cow_parent)) (drop (Suc j) (ppt[j := Some ?pd'])), cpt',
                  foldl bump ?mc' (ptes_of (drop (Suc j) (ppt[j := Some ?pd']))))
           \<and> length cpt' = n
           \<and> (\<forall>i<n. cpt' ! i =
                (if Suc j \<le> i
                 then (case (ppt[j := Some ?pd']) ! i of None \<Rightarrow> (cpt[j := Some ?cd']) ! i
                       | Some pd \<Rightarrow> Some (map2 cow_child pd (fresh i)))
                 else (cpt[j := Some ?cd']) ! i))"
      using Suc.hyps(2) Suc.prems dp by (intro Suc.hyps(1)) auto
    then obtain cpt' where c:
      "fork_dirs n (Suc j) (ppt[j := Some ?pd']) (cpt[j := Some ?cd']) fresh ?mc' =
             Inr (take (Suc j) (ppt[j := Some ?pd'])
                    @ map (map_option (map cow_parent)) (drop (Suc j) (ppt[j := Some ?pd'])), cpt',
                  foldl bump ?mc' (ptes_of (drop (Suc j) (ppt[j := Some ?pd']))))"
      "length cpt' = n"
      "\<forall>i<n. cpt' ! i =
                (if Suc j \<le> i
                 then (case (ppt[j := Some ?pd']) ! i of None \<Rightarrow> (cpt[j := Some ?cd']) ! i
                       | Some pd \<Rightarrow> Some (map2 cow_child pd (fresh i)))
                 else (cpt[j := Some ?cd']) ! i)"
      by blast
    have pw: "\<forall>i<n. cpt' ! i =
                (if j \<le> i
                 then (case ppt ! i of None \<Rightarrow> cpt ! i
                       | Some pd \<Rightarrow> Some (map2 cow_child pd (fresh i)))
                 else cpt ! i)"
    proof (intro allI impI)
      fix i assume "i < n"
      with c(3) Some j Suc.prems(2) show "cpt' ! i =
                (if j \<le> i
                 then (case ppt ! i of None \<Rightarrow> cpt ! i
                       | Some pd \<Rightarrow> Some (map2 cow_child pd (fresh i)))
                 else cpt ! i)"
        by (cases "i = j") (auto split: option.splits)
    qed
    from j Some Suc.prems(1) c(1,2) pw inner show ?thesis
      by (simp add: fork_dirs.simps [of n j] dp take_Suc_conv_app_nth ptes_of_drop)
  qed
qed

section \<open>The fork of switch_process\<close>

lemma bump_nth:
  "f < length mc \<Longrightarrow>
     bump mc p ! f = (if valid p \<and> unat (pfn p) = f then mc ! f + 1 else mc ! f)"
  by (simp add: bump_def nth_list_update)

lemma foldl_bump_nth:
  "f < length mc \<Longrightarrow>
     foldl bump mc ps ! f = mc ! f + of_nat (length (filter (\<lambda>p. valid p \<and> unat (pfn p) = f) ps))"
proof (induction ps arbitrary: mc)
  case Nil
  then show ?case by simp
next
  case (Cons p ps)
  from Cons.prems have "f < length (bump mc p)" by simp
  from Cons.IH [OF this] Cons.prems show ?case
    by (simp add: bump_nth)
qed

lemma wf_pagetable_nth:
  assumes "wf_pagetable cfg pt" and "j < NR_PTES_PER_PAGE cfg" and "pt ! j = Some d"
  shows "length d = NR_PTES_PER_PAGE cfg" and "Some d \<in> set pt"
proof -
  from assms show m: "Some d \<in> set pt"
    by (metis nth_mem wf_pagetable_def)
  with assms(1) show "length d = NR_PTES_PER_PAGE cfg"
    by (auto simp: wf_pagetable_def list_all_iff split: option.splits)
qed

lemma set_ptes_of: "set (ptes_of pt) = {p. \<exists>d. Some d \<in> set pt \<and> p \<in> set d}"
  by (induction pt) (auto simp: ptes_of_def split: option.splits)

lemma lookup_pte_cases:
  assumes "lookup_pte cfg pt v = Some e"
  obtains d where "v div NR_PTES_PER_PAGE cfg < NR_PTES_PER_PAGE cfg"
    and "pt ! (v div NR_PTES_PER_PAGE cfg) = Some d"
    and "e = d ! (v mod NR_PTES_PER_PAGE cfg)"
  using assms by (auto simp: lookup_pte_def split: if_splits)

lemma lookup_pte_in_ptes_of:
  assumes "wf_pagetable cfg pt" and "lookup_pte cfg pt v = Some e"
  shows "e \<in> set (ptes_of pt)"
proof -
  from assms(2) obtain d where d: "v div NR_PTES_PER_PAGE cfg < NR_PTES_PER_PAGE cfg"
    "pt ! (v div NR_PTES_PER_PAGE cfg) = Some d" "e = d ! (v mod NR_PTES_PER_PAGE cfg)"
    by (rule lookup_pte_cases)
  note w = wf_pagetable_nth [OF assms(1) d(1,2)]
  from d(1) have "0 < NR_PTES_PER_PAGE cfg" by simp
  with w(1) d(3) have "e \<in> set d" by simp
  with w(2) show ?thesis by (auto simp: set_ptes_of)
qed

lemma mappers_pos:
  assumes "wf_pagetable cfg pt" and "lookup_pte cfg pt v = Some e" and "valid e"
  shows "1 \<le> mappers (unat (pfn e)) pt"
proof -
  from lookup_pte_in_ptes_of [OF assms(1,2)] assms(3)
  have "e \<in> set (filter (\<lambda>p. valid p \<and> unat (pfn p) = unat (pfn e)) (ptes_of pt))"
    by simp
  then have "0 < length (filter (\<lambda>p. valid p \<and> unat (pfn p) = unat (pfn e)) (ptes_of pt))"
    by (rule length_pos_if_in_set)
  then show ?thesis
    by (simp add: mappers_def Suc_le_eq)
qed

lemma switch_process_fork:
  assumes "wf_vm cfg s"
    and "find_process x (processes s) = None"
    and "\<forall>p\<in>set (ptes_of (pagetable (current s))). valid p \<longrightarrow> unat (pfn p) < NR_PAGEFRAMES cfg"
    and "length fresh_pt = NR_PTES_PER_PAGE cfg"
    and "\<forall>j<NR_PTES_PER_PAGE cfg. length (fresh j) = NR_PTES_PER_PAGE cfg"
  shows "\<exists>cpt. switch_process cfg fresh_pt fresh x s =
           Inr (s\<lparr>processes := processes s
                      @ [(current s)\<lparr>pagetable :=
                            map (map_option (map cow_parent)) (pagetable (current s))\<rparr>],
                  current := \<lparr>pid = x, pagetable = cpt\<rparr>,
                  mapcounts := foldl bump (mapcounts s) (ptes_of (pagetable (current s)))\<rparr>)
         \<and> length cpt = NR_PTES_PER_PAGE cfg
         \<and> (\<forall>i<NR_PTES_PER_PAGE cfg. cpt ! i =
              (case pagetable (current s) ! i of None \<Rightarrow> fresh_pt ! i
               | Some pd \<Rightarrow> Some (map2 cow_child pd (fresh i))))"
proof -
  let ?n = "NR_PTES_PER_PAGE cfg" and ?ppt = "pagetable (current s)"
  note wf = wf_vm_current [OF assms(1)]
  from assms(1) have wp: "wf_pagetable cfg ?ppt" by (simp add: wf_vm_def)
  have dirs: "\<forall>d. Some d \<in> set (drop 0 ?ppt) \<longrightarrow>
      length d = ?n \<and> (\<forall>p\<in>set d. valid p \<longrightarrow> unat (pfn p) < length (mapcounts s))"
  proof (intro allI impI)
    fix d assume d: "Some d \<in> set (drop 0 ?ppt)"
    with wp have "length d = ?n"
      by (auto simp: wf_pagetable_def list_all_iff split: option.splits)
    moreover from d assms(3) wf(3)
    have "\<forall>p\<in>set d. valid p \<longrightarrow> unat (pfn p) < length (mapcounts s)"
      by (auto simp: set_ptes_of)
    ultimately show "length d = ?n \<and> (\<forall>p\<in>set d. valid p \<longrightarrow> unat (pfn p) < length (mapcounts s))"
      by simp
  qed
  from fork_dirs_result [OF wf(4) assms(4) dirs assms(5)]
  obtain cpt where c:
    "fork_dirs ?n 0 ?ppt fresh_pt fresh (mapcounts s) =
       Inr (map (map_option (map cow_parent)) ?ppt, cpt, foldl bump (mapcounts s) (ptes_of ?ppt))"
    "length cpt = ?n"
    "\<forall>i<?n. cpt ! i = (case ?ppt ! i of None \<Rightarrow> fresh_pt ! i
                       | Some pd \<Rightarrow> Some (map2 cow_child pd (fresh i)))"
    by auto
  from c(1) assms(2) have "switch_process cfg fresh_pt fresh x s =
           Inr (s\<lparr>processes := processes s
                      @ [(current s)\<lparr>pagetable := map (map_option (map cow_parent)) ?ppt\<rparr>],
                  current := \<lparr>pid = x, pagetable = cpt\<rparr>,
                  mapcounts := foldl bump (mapcounts s) (ptes_of ?ppt)\<rparr>)"
    by (simp add: switch_process_def)
  with c(2,3) show ?thesis by blast
qed

text \<open>
  C1: when no queued process carries the pid, switch_process forks: it returns normally,
  the child becomes the running process and the parent goes to the tail of the queue.
  For every virtual page valid in the parent before the call, the child's entry is valid
  with the same frame number and the same \<open>private\<close> value and is not writable, and the
  parent's entry is the old one made non-writable. The count of every frame grows by the
  number of valid parent entries that hold it: by exactly one for a frame the parent maps
  once, so such a frame with count 1 has count 2 afterwards.
\<close>

theorem C1_fork_shares_frames:
  assumes "wf_vm cfg s"
    and "find_process x (processes s) = None"
    and "\<forall>p\<in>set (ptes_of (pagetable (current s))). valid p \<longrightarrow> unat (pfn p) < NR_PAGEFRAMES cfg"
    and "length fresh_pt = NR_PTES_PER_PAGE cfg"
    and "\<forall>j<NR_PTES_PER_PAGE cfg. length (fresh j) = NR_PTES_PER_PAGE cfg"
  shows "\<exists>s' parent. switch_process cfg fresh_pt fresh x s = Inr s'
     \<and> pid (current s') = x
     \<and> processes s' = processes s @ [parent] \<and> pid parent = pid (current s)
     \<and> (\<forall>v e. lookup_pte cfg (pagetable (current s)) v = Some e \<and> valid e \<longrightarrow>
          (\<exists>c. lookup_pte cfg (pagetable (current s')) v = Some c
             \<and> valid c \<and> pfn c = pfn e \<and> private c = private e \<and> \<not> writable c)
          \<and> lookup_pte cfg (pagetable parent) v = Some (e\<lparr>writable := False\<rparr>)
          \<and> 1 \<le> mappers (unat (pfn e)) (pagetable (current s)))
     \<and> length (mapcounts s') = length (mapcounts s)
     \<and> (\<forall>f<NR_PAGEFRAMES cfg.
          mapcounts s' ! f = mapcounts s ! f + of_nat (mappers f (pagetable (current s))))
     \<and> (\<forall>f<NR_PAGEFRAMES cfg. mappers f (pagetable (current s)) = 1 \<longrightarrow>
          mapcounts s' ! f = mapcounts s ! f + 1)
     \<and> (\<forall>f<NR_PAGEFRAMES cfg. mappers f (pagetable (current s)) = 1 \<and> mapcounts s ! f = 1 \<longrightarrow>
          mapcounts s' ! f = 2)"
proof -
  let ?n = "NR_PTES_PER_PAGE cfg" and ?ppt = "pagetable (current s)"
  let ?ppt' = "map (map_option (map cow_parent)) ?ppt"
  note wf = wf_vm_current [OF assms(1)]
  from assms(1) have wp: "wf_pagetable cfg ?ppt" by (simp add: wf_vm_def)
  from switch_process_fork [OF assms] obtain cpt where c:
    "switch_process cfg fresh_pt fresh x s =
           Inr (s\<lparr>processes := processes s @ [(current s)\<lparr>pagetable := ?ppt'\<rparr>],
                  current := \<lparr>pid = x, pagetable = cpt\<rparr>,
                  mapcounts := foldl bump (mapcounts s) (ptes_of ?ppt)\<rparr>)"
    "length cpt = ?n"
    "\<forall>i<?n. cpt ! i = (case ?ppt ! i of None \<Rightarrow> fresh_pt ! i
                       | Some pd \<Rightarrow> Some (map2 cow_child pd (fresh i)))"
    by blast
  define s' where "s' = s\<lparr>processes := processes s @ [(current s)\<lparr>pagetable := ?ppt'\<rparr>],
                  current := \<lparr>pid = x, pagetable = cpt\<rparr>,
                  mapcounts := foldl bump (mapcounts s) (ptes_of ?ppt)\<rparr>"
  define parent where "parent = (current s)\<lparr>pagetable := ?ppt'\<rparr>"
  have entries: "(\<exists>c. lookup_pte cfg (pagetable (current s')) v = Some c
             \<and> valid c \<and> pfn c = pfn e \<and> private c = private e \<and> \<not> writable c)
          \<and> lookup_pte cfg (pagetable parent) v = Some (e\<lparr>writable := False\<rparr>)
          \<and> 1 \<le> mappers (unat (pfn e)) ?ppt"
    if lk: "lookup_pte cfg ?ppt v = Some e" and v: "valid e" for v e
  proof -
    from lk obtain pd where pd: "v div ?n < ?n" "?ppt ! (v div ?n) = Some pd" "e = pd ! (v mod ?n)"
      by (rule lookup_pte_cases)
    have len: "length pd = ?n" by (rule wf(5) [OF pd(1,2)])
    have ip: "v mod ?n < ?n" using wf(1) by simp
    from c(3) pd(1,2) have "cpt ! (v div ?n) = Some (map2 cow_child pd (fresh (v div ?n)))"
      by simp
    with pd(1) have "lookup_pte cfg cpt v = Some (map2 cow_child pd (fresh (v div ?n)) ! (v mod ?n))"
      by (simp add: lookup_pte_Some)
    also have "map2 cow_child pd (fresh (v div ?n)) ! (v mod ?n)
                 = cow_child e (fresh (v div ?n) ! (v mod ?n))"
      using len ip assms(5) pd(1,3) by simp
    finally have child: "lookup_pte cfg (pagetable (current s')) v
                           = Some (cow_child e (fresh (v div ?n) ! (v mod ?n)))"
      by (simp add: s'_def)
    from pd(1,2) wf(4) have "?ppt' ! (v div ?n) = Some (map cow_parent pd)" by simp
    with pd(1) have "lookup_pte cfg ?ppt' v = Some (map cow_parent pd ! (v mod ?n))"
      by (simp add: lookup_pte_Some)
    with len ip pd(3) v have par: "lookup_pte cfg (pagetable parent) v = Some (e\<lparr>writable := False\<rparr>)"
      by (simp add: parent_def cow_valid)
    from child par v mappers_pos [OF wp lk v] show ?thesis
      by (simp add: cow_valid)
  qed
  have counts: "mapcounts s' ! f = mapcounts s ! f + of_nat (mappers f ?ppt)"
    if "f < NR_PAGEFRAMES cfg" for f
    using that wf(3) by (simp add: s'_def foldl_bump_nth mappers_def)
  have shape: "switch_process cfg fresh_pt fresh x s = Inr s'
     \<and> pid (current s') = x
     \<and> processes s' = processes s @ [parent] \<and> pid parent = pid (current s)
     \<and> length (mapcounts s') = length (mapcounts s)"
    using c(1) by (simp add: s'_def parent_def)
  have E: "\<forall>v e. lookup_pte cfg ?ppt v = Some e \<and> valid e \<longrightarrow>
          (\<exists>c. lookup_pte cfg (pagetable (current s')) v = Some c
             \<and> valid c \<and> pfn c = pfn e \<and> private c = private e \<and> \<not> writable c)
          \<and> lookup_pte cfg (pagetable parent) v = Some (e\<lparr>writable := False\<rparr>)
          \<and> 1 \<le> mappers (unat (pfn e)) ?ppt"
    using entries by blast
  have C: "\<forall>f<NR_PAGEFRAMES cfg. mapcounts s' ! f = mapcounts s ! f + of_nat (mappers f ?ppt)"
    using counts by blast
  from C have C1: "\<forall>f<NR_PAGEFRAMES cfg. mappers f ?ppt = 1 \<longrightarrow>
          mapcounts s' ! f = mapcounts s ! f + 1"
    by simp
  from C have C2: "\<forall>f<NR_PAGEFRAMES cfg. mappers f ?ppt = 1 \<and> mapcounts s ! f = 1 \<longrightarrow>
          mapcounts s' ! f = 2"
    by simp
  from shape E C C1 C2 show ?thesis
    by (intro exI [of _ s'] exI [of _ parent] conjI) blast+
qed

lemma wf_vm_forked: "wf_vm cfg4 vm_forked"
  by (simp add: wf_vm_def wf_pagetable_def cfg4_def vm_forked_def)

lemma wf_vm_full_shared: "wf_vm cfg_one vm_full_shared"
  by (simp add: wf_vm_def wf_pagetable_def cfg_one_def vm_full_shared_def)

lemma wf_vm_full: "wf_vm cfg_one vm_full"
  by (simp add: wf_vm_def wf_pagetable_def cfg_one_def vm_full_def)

section \<open>The theorems at concrete inputs\<close>

text \<open>
  C4 as stated fails: a read-only allocation (\<open>rw = 1\<close>, entry not writable) leaves
  \<open>private\<close> at 0, and an allocation with write intent (\<open>rw = 2\<close>, entry writable)
  sets it to 1.
\<close>

theorem C4_counterexample:
  "alloc_page cfg4 (zero_directory cfg4) 0 1 (init_vm cfg4) =
     Inr (0, \<lparr>processes = [],
              current = \<lparr>pid = 0, pagetable =
                [Some [\<lparr>valid = True, writable = False, pfn = 0, private = 0\<rparr>, zero_pte], None]\<rparr>,
              mapcounts = [1, 0, 0, 0]\<rparr>)
   \<and> alloc_page cfg4 (zero_directory cfg4) 0 2 (init_vm cfg4) =
     Inr (0, \<lparr>processes = [],
              current = \<lparr>pid = 0, pagetable =
                [Some [\<lparr>valid = True, writable = True, pfn = 0, private = 1\<rparr>, zero_pte], None]\<rparr>,
              mapcounts = [1, 0, 0, 0]\<rparr>)"
  by code_simp

text \<open>C4 (amended) at the initial state of the small configuration, page 3, intent 1.\<close>

theorem C4_alloc_private_iff_writable_witness:
  "\<exists>r s' e. alloc_page cfg4 (zero_directory cfg4) 3 1 (init_vm cfg4) = Inr (r, s')
           \<and> lookup_pte cfg4 (pagetable (current s')) (unat (3 :: u32)) = Some e
           \<and> valid e \<and> pfn e = r
           \<and> writable e = ((1 :: u32) \<noteq> 1)
           \<and> private e = (if (1 :: u32) \<noteq> 1 then 1 else 0)
           \<and> (private e = 1) = writable e"
proof -
  have a: "length (zero_directory cfg4) = NR_PTES_PER_PAGE cfg4"
    by (simp add: zero_directory_def)
  have b: "unat (3 :: u32) div NR_PTES_PER_PAGE cfg4 < NR_PTES_PER_PAGE cfg4"
    by (simp add: cfg4_def)
  have c: "2 < NR_PAGEFRAMES cfg4" by (simp add: cfg4_def)
  have d: "mapcounts (init_vm cfg4) ! 2 = 0" by (simp add: cfg4_def init_vm_def)
  show ?thesis by (rule C4_alloc_private_iff_writable [OF wf_init4 a b c d])
qed

text \<open>C8 for the forked child freeing page 0, whose frame the parent still maps.\<close>

theorem C8_free_page_witness:
  "\<exists>s'. free_page cfg4 0 vm_forked = Inr s'
           \<and> lookup_pte cfg4 (pagetable (current s')) (unat (0 :: u32)) = Some zero_pte
           \<and> mapcounts s' = (mapcounts vm_forked)[0 := mapcounts vm_forked ! 0 - 1]
           \<and> mapcounts s' ! 0 = mapcounts vm_forked ! 0 - 1
           \<and> (\<forall>g. g \<noteq> 0 \<longrightarrow> mapcounts s' ! g = mapcounts vm_forked ! g)
           \<and> processes s' = processes vm_forked
           \<and> pid (current s') = pid (current vm_forked)
           \<and> (\<forall>v. v \<noteq> unat (0 :: u32) \<longrightarrow>
                 lookup_pte cfg4 (pagetable (current s')) v
                   = lookup_pte cfg4 (pagetable (current vm_forked)) v)"
proof -
  have a: "unat (0 :: u32) div NR_PTES_PER_PAGE cfg4 < NR_PTES_PER_PAGE cfg4"
    by (simp add: cfg4_def)
  have b: "pagetable (current vm_forked) ! (unat (0 :: u32) div NR_PTES_PER_PAGE cfg4)
             = Some [cow_pte, zero_pte]"
    by (simp add: vm_forked_def)
  have c: "valid ([cow_pte, zero_pte] ! (unat (0 :: u32) mod NR_PTES_PER_PAGE cfg4))"
    by (simp add: cow_pte_def)
  have d: "0 = unat (pfn ([cow_pte, zero_pte] ! (unat (0 :: u32) mod NR_PTES_PER_PAGE cfg4)))"
    by (simp add: cow_pte_def)
  have e: "0 < NR_PAGEFRAMES cfg4" by (simp add: cfg4_def)
  show ?thesis by (rule C8_free_page_clears_and_decrements [OF wf_vm_forked a b c d e])
qed

text \<open>C2, shared case: the forked child faults on page 0, frame 0 has count 2.\<close>

theorem C2_handle_page_fault_witness:
  "\<exists>i s'. handle_page_fault cfg4 0 2 vm_forked = Inr (True, s')
       \<and> i < NR_PAGEFRAMES cfg4 \<and> unat (of_nat i :: u32) = i
       \<and> mapcounts vm_forked ! i = 0 \<and> (\<forall>j<i. mapcounts vm_forked ! j \<noteq> 0)
       \<and> lookup_pte cfg4 (pagetable (current s')) (unat (0 :: u32))
            = Some (cow_pte\<lparr>writable := True, pfn := of_nat i\<rparr>)
       \<and> length (mapcounts s') = length (mapcounts vm_forked)
       \<and> mapcounts s' ! i = 1
       \<and> mapcounts s' ! 0 = mapcounts vm_forked ! 0 - 1
       \<and> (\<forall>g. g \<noteq> i \<and> g \<noteq> 0 \<longrightarrow> mapcounts s' ! g = mapcounts vm_forked ! g)
       \<and> same_elsewhere cfg4 0 vm_forked s'"
proof -
  have a: "unat (0 :: u32) div NR_PTES_PER_PAGE cfg4 < NR_PTES_PER_PAGE cfg4"
    by (simp add: cfg4_def)
  have b: "pagetable (current vm_forked) ! (unat (0 :: u32) div NR_PTES_PER_PAGE cfg4)
             = Some [cow_pte, zero_pte]"
    by (simp add: vm_forked_def)
  have c: "cow_pte = [cow_pte, zero_pte] ! (unat (0 :: u32) mod NR_PTES_PER_PAGE cfg4)"
    by simp
  have d: "0 = unat (pfn cow_pte)" by (simp add: cow_pte_def)
  have e: "private cow_pte = 1 \<and> 0 < NR_PAGEFRAMES cfg4 \<and> 1 < unat (mapcounts vm_forked ! 0)
             \<and> 1 < NR_PAGEFRAMES cfg4 \<and> mapcounts vm_forked ! 1 = 0"
    by (simp add: cow_pte_def cfg4_def vm_forked_def)
  show ?thesis
    by (rule C2_handle_page_fault_cases [OF wf_vm_forked a b c d,
          THEN conjunct2, THEN conjunct2, THEN mp, OF e])
qed

text \<open>
  C6 as stated fails: with the only frame in use and the directory of page 2 absent,
  alloc_page returns \<open>- 1\<close> and has installed that directory.
\<close>

theorem C6_counterexample:
  "alloc_page cfg_one (zero_directory cfg_one) 2 2 vm_full =
     Inr (- 1, \<lparr>processes = [],
                current = \<lparr>pid = 0, pagetable =
                  [Some [\<lparr>valid = True, writable = True, pfn = 0, private = 1\<rparr>, zero_pte],
                   Some [zero_pte, zero_pte]]\<rparr>,
                mapcounts = [1]\<rparr>)
   \<and> pagetable (current vm_full) ! 1 = None
   \<and> mapcounts vm_full = [1]"
  by code_simp

text \<open>C6 (amended) at that state.\<close>

theorem C6_exhaustion_witness:
  "(\<exists>s'. alloc_page cfg_one (zero_directory cfg_one) 2 2 vm_full = Inr (- 1, s')
      \<and> mapcounts s' = mapcounts vm_full)
   \<and> alloc_page cfg_one (zero_directory cfg_one) 0 2 vm_full_shared = Inr (- 1, vm_full_shared)
   \<and> handle_page_fault cfg_one 0 2 vm_full_shared = Inr (False, vm_full_shared)"
proof -
  have a: "unat (2 :: u32) div NR_PTES_PER_PAGE cfg_one < NR_PTES_PER_PAGE cfg_one"
    by (simp add: cfg_one_def)
  have b: "\<forall>i<NR_PAGEFRAMES cfg_one. mapcounts vm_full ! i \<noteq> 0"
    by (simp add: cfg_one_def vm_full_def)
  from C6_exhaustion [OF wf_vm_full a b, of "zero_directory cfg_one" 2, THEN conjunct1]
  have 1: "\<exists>s'. alloc_page cfg_one (zero_directory cfg_one) 2 2 vm_full = Inr (- 1, s')
      \<and> mapcounts s' = mapcounts vm_full"
    by blast
  have c: "unat (0 :: u32) div NR_PTES_PER_PAGE cfg_one < NR_PTES_PER_PAGE cfg_one"
    by (simp add: cfg_one_def)
  have d: "\<forall>i<NR_PAGEFRAMES cfg_one. mapcounts vm_full_shared ! i \<noteq> 0"
    by (simp add: cfg_one_def vm_full_shared_def)
  note th = C6_exhaustion [OF wf_vm_full_shared c d, of "zero_directory cfg_one" 2]
  have e: "pagetable (current vm_full_shared) ! (unat (0 :: u32) div NR_PTES_PER_PAGE cfg_one)
             = Some [cow_pte, zero_pte]"
    by (simp add: vm_full_shared_def)
  from th [THEN conjunct1] e
  have 2: "alloc_page cfg_one (zero_directory cfg_one) 0 2 vm_full_shared = Inr (- 1, vm_full_shared)"
    by auto
  have "private ([cow_pte, zero_pte] ! (unat (0 :: u32) mod NR_PTES_PER_PAGE cfg_one)) = 1
      \<and> unat (pfn ([cow_pte, zero_pte] ! (unat (0 :: u32) mod NR_PTES_PER_PAGE cfg_one)))
            < NR_PAGEFRAMES cfg_one
      \<and> 1 < unat (mapcounts vm_full_shared
                     ! unat (pfn ([cow_pte, zero_pte] ! (unat (0 :: u32) mod NR_PTES_PER_PAGE cfg_one))))"
    by (simp add: cow_pte_def cfg_one_def vm_full_shared_def)
  with th [THEN conjunct2] e
  have 3: "handle_page_fault cfg_one 0 2 vm_full_shared = Inr (False, vm_full_shared)"
    by blast
  from 1 2 3 show ?thesis by blast
qed

text \<open>C9: the forked child switches to its parent (pid 0) and back (pid 1).\<close>

theorem C9_switch_round_trip_witness:
  "\<exists>s'. switch_process cfg4 (empty_pagetable cfg4) (\<lambda>j. zero_directory cfg4) 0 vm_forked = Inr s'
      \<and> mapcounts s' = mapcounts vm_forked
      \<and> (\<exists>s''. switch_process cfg4 (empty_pagetable cfg4) (\<lambda>j. zero_directory cfg4) 1 s' = Inr s''
             \<and> current s'' = current vm_forked \<and> mapcounts s'' = mapcounts vm_forked)"
proof -
  have a: "find_process 0 (processes vm_forked) = Some 0"
    by (simp add: vm_forked_def)
  have b: "find_process (pid (current vm_forked)) (processes vm_forked) = None"
    by (simp add: vm_forked_def)
  have c: "pid (current vm_forked) = 1" by (simp add: vm_forked_def)
  from C9_switch_round_trip [OF a, of cfg4 "empty_pagetable cfg4" "\<lambda>j. zero_directory cfg4"
      "empty_pagetable cfg4" "\<lambda>j. zero_directory cfg4"] b c
  show ?thesis by auto
qed

section \<open>The example states are states of the program\<close>

lemma wf_vm_one: "wf_vm cfg4 vm_one"
  by (simp add: wf_vm_def wf_pagetable_def cfg4_def vm_one_def)

lemma vm_one_from_init:
  "alloc_page cfg4 (zero_directory cfg4) 0 2 (init_vm cfg4) = Inr (0, vm_one)"
  by code_simp

lemma vm_forked_from_vm_one:
  "switch_process cfg4 (empty_pagetable cfg4) (\<lambda>j. zero_directory cfg4) 1 vm_one = Inr vm_forked"
  by code_simp

section \<open>Fork: outer slots that are null in the parent\<close>

lemma fork_null_slot:
  assumes "wf_vm cfg s"
    and "find_process x (processes s) = None"
    and "\<forall>p\<in>set (ptes_of (pagetable (current s))). valid p \<longrightarrow> unat (pfn p) < NR_PAGEFRAMES cfg"
    and "length fresh_pt = NR_PTES_PER_PAGE cfg"
    and "\<forall>j<NR_PTES_PER_PAGE cfg. length (fresh j) = NR_PTES_PER_PAGE cfg"
    and "j < NR_PTES_PER_PAGE cfg" and "pagetable (current s) ! j = None"
  shows "\<exists>s'. switch_process cfg fresh_pt fresh x s = Inr s'
           \<and> pagetable (current s') ! j = fresh_pt ! j"
proof -
  from switch_process_fork [OF assms(1-5)] obtain cpt where
    "switch_process cfg fresh_pt fresh x s =
           Inr (s\<lparr>processes := processes s
                      @ [(current s)\<lparr>pagetable :=
                            map (map_option (map cow_parent)) (pagetable (current s))\<rparr>],
                  current := \<lparr>pid = x, pagetable = cpt\<rparr>,
                  mapcounts := foldl bump (mapcounts s) (ptes_of (pagetable (current s)))\<rparr>)"
    "\<forall>i<NR_PTES_PER_PAGE cfg. cpt ! i =
              (case pagetable (current s) ! i of None \<Rightarrow> fresh_pt ! i
               | Some pd \<Rightarrow> Some (map2 cow_child pd (fresh i)))"
    by blast
  with assms(6,7) show ?thesis by simp
qed

text \<open>
  C5: the fork never assigns the child's outer slot where the parent's is null; the slot
  keeps what the allocated block contained. Here the parent's second slot is null and
  the block holds a non-null pattern there: after the fork the child's second slot is
  not null.
\<close>

theorem C5_fork_null_slot_not_initialised:
  "pagetable (current vm_one) ! 1 = None
   \<and> switch_process cfg4 stale_pagetable (\<lambda>j. zero_directory cfg4) 1 vm_one =
       Inr \<lparr>processes = [\<lparr>pid = 0, pagetable = [Some [cow_pte, zero_pte], None]\<rparr>],
            current = \<lparr>pid = 1, pagetable = [Some [cow_pte, zero_pte], Some [rw_pte, rw_pte]]\<rparr>,
            mapcounts = [2, 0, 0, 0]\<rparr>"
  by code_simp

text \<open>C1 for the fork of the process that maps page 0 writable to frame 0.\<close>

theorem C1_fork_shares_frames_witness:
  "\<exists>s' parent. switch_process cfg4 (empty_pagetable cfg4) (\<lambda>j. zero_directory cfg4) 1 vm_one = Inr s'
     \<and> pid (current s') = 1
     \<and> processes s' = processes vm_one @ [parent] \<and> pid parent = pid (current vm_one)
     \<and> (\<forall>v e. lookup_pte cfg4 (pagetable (current vm_one)) v = Some e \<and> valid e \<longrightarrow>
          (\<exists>c. lookup_pte cfg4 (pagetable (current s')) v = Some c
             \<and> valid c \<and> pfn c = pfn e \<and> private c = private e \<and> \<not> writable c)
          \<and> lookup_pte cfg4 (pagetable parent) v = Some (e\<lparr>writable := False\<rparr>)
          \<and> 1 \<le> mappers (unat (pfn e)) (pagetable (current vm_one)))
     \<and> length (mapcounts s') = length (mapcounts vm_one)
     \<and> (\<forall>f<NR_PAGEFRAMES cfg4.
          mapcounts s' ! f = mapcounts vm_one ! f + of_nat (mappers f (pagetable (current vm_one))))
     \<and> (\<forall>f<NR_PAGEFRAMES cfg4. mappers f (pagetable (current vm_one)) = 1 \<longrightarrow>
          mapcounts s' ! f = mapcounts vm_one ! f + 1)
     \<and> (\<forall>f<NR_PAGEFRAMES cfg4. mappers f (pagetable (current vm_one)) = 1 \<and> mapcounts vm_one ! f = 1 \<longrightarrow>
          mapcounts s' ! f = 2)"
proof -
  have a: "find_process 1 (processes vm_one) = None" by (simp add: vm_one_def)
  have b: "\<forall>p\<in>set (ptes_of (pagetable (current vm_one))).
             valid p \<longrightarrow> unat (pfn p) < NR_PAGEFRAMES cfg4"
    by (simp add: vm_one_def rw_pte_def zero_pte_def cfg4_def)
  have c: "length (empty_pagetable cfg4) = NR_PTES_PER_PAGE cfg4"
    by (simp add: empty_pagetable_def)
  have d: "\<forall>j<NR_PTES_PER_PAGE cfg4. length (zero_directory cfg4) = NR_PTES_PER_PAGE cfg4"
    by (simp add: zero_directory_def)
  show ?thesis by (rule C1_fork_shares_frames [OF wf_vm_one a b c d])
qed

section \<open>Counting entries\<close>

lemma filter_update_count:
  "i < length xs \<Longrightarrow>
     length (filter P (xs[i := y])) + (if P (xs ! i) then 1 else 0)
       = length (filter P xs) + (if P y then 1 else 0)"
proof (induction xs arbitrary: i)
  case Nil
  then show ?case by simp
next
  case (Cons x xs)
  show ?case
  proof (cases i)
    case 0
    then show ?thesis by simp
  next
    case (Suc k)
    with Cons.prems have "k < length xs" by simp
    from Cons.IH [OF this] Suc show ?thesis by simp
  qed
qed

lemma ptes_of_update:
  "j < length pt \<Longrightarrow>
     ptes_of (pt[j := Some d]) = ptes_of (take j pt) @ d @ ptes_of (drop (Suc j) pt)"
  by (simp add: ptes_of_def upd_conv_take_nth_drop)

lemma ptes_of_split:
  "j < length pt \<Longrightarrow>
     ptes_of pt = ptes_of (take j pt) @ (case pt ! j of None \<Rightarrow> [] | Some d \<Rightarrow> d)
                    @ ptes_of (drop (Suc j) pt)"
proof -
  assume j: "j < length pt"
  then have "pt = take j pt @ pt ! j # drop (Suc j) pt"
    by (simp add: id_take_nth_drop)
  then have "ptes_of pt = ptes_of (take j pt @ pt ! j # drop (Suc j) pt)" by simp
  then show ?thesis by (simp add: ptes_of_def)
qed

lemma count_entry_update:
  assumes "j < length pt" and "pt ! j = Some d" and "i < length d"
  shows "length (filter P (ptes_of (pt[j := Some (d[i := y])]))) + (if P (d ! i) then 1 else 0)
           = length (filter P (ptes_of pt)) + (if P y then 1 else 0)"
  using filter_update_count [OF assms(3), of P y] assms(1,2)
  by (simp add: ptes_of_update ptes_of_split [OF assms(1)])

lemma count_directory_install:
  assumes "j < length pt" and "pt ! j = None"
  shows "length (filter P (ptes_of (pt[j := Some d])))
           = length (filter P (ptes_of pt)) + length (filter P d)"
  using assms by (simp add: ptes_of_update ptes_of_split [OF assms(1)])

lemma set_ptes_of_entry_update:
  assumes "j < length pt" and "pt ! j = Some d"
  shows "set (ptes_of (pt[j := Some (d[i := y])])) \<subseteq> insert y (set (ptes_of pt))"
proof -
  have "set (d[i := y]) \<subseteq> insert y (set d)" by (rule set_update_subset_insert)
  then show ?thesis
    using assms by (auto simp: ptes_of_update ptes_of_split [OF assms(1)])
qed

lemma set_ptes_of_directory_install:
  assumes "j < length pt" and "pt ! j = None"
  shows "set (ptes_of (pt[j := Some d])) = set d \<union> set (ptes_of pt)"
  using assms by (auto simp: ptes_of_update ptes_of_split [OF assms(1)])

lemma ptes_of_map:
  "ptes_of (map (map_option (map g)) pt) = map g (ptes_of pt)"
  by (induction pt) (auto simp: ptes_of_def split: option.splits)

lemma mappers_map:
  assumes "\<And>p. valid (g p) = valid p" and "\<And>p. valid p \<Longrightarrow> pfn (g p) = pfn p"
  shows "mappers f (map (map_option (map g)) pt) = mappers f pt"
proof -
  have "((\<lambda>p. valid p \<and> unat (pfn p) = f) \<circ> g) = (\<lambda>p. valid p \<and> unat (pfn p) = f)"
    using assms by (auto simp: fun_eq_iff)
  then show ?thesis
    by (simp add: mappers_def ptes_of_map filter_map)
qed

section \<open>From the frame-wise invariant to conservation\<close>

lemma sum_mappers_entries:
  assumes "\<forall>e\<in>set es. valid e \<longrightarrow> unat (pfn e) < n"
  shows "(\<Sum>f<n. length (filter (\<lambda>p. valid p \<and> unat (pfn p) = f) es)) = length (filter valid es)"
  using assms
proof (induction es)
  case Nil
  then show ?case by simp
next
  case (Cons e es)
  then have IH: "(\<Sum>f<n. length (filter (\<lambda>p. valid p \<and> unat (pfn p) = f) es))
                   = length (filter valid es)" by simp
  have "(\<Sum>f<n. length (filter (\<lambda>p. valid p \<and> unat (pfn p) = f) (e # es)))
          = (\<Sum>f<n. (if unat (pfn e) = f then (if valid e then 1 else 0) else 0)
                     + length (filter (\<lambda>p. valid p \<and> unat (pfn p) = f) es))"
    by (intro sum.cong) auto
  also have "\<dots> = (\<Sum>f<n. if unat (pfn e) = f then (if valid e then 1 else 0) else 0)
                    + length (filter valid es)"
    by (simp add: sum.distrib IH)
  also have "(\<Sum>f<n. if unat (pfn e) = f then (if valid e then 1 else 0) else 0)
               = (if valid e then 1 else (0::nat))"
    using Cons.prems by (simp add: sum.delta')
  finally show ?case by simp
qed

lemma sum_mappers:
  "entries_ok cfg pt \<Longrightarrow> (\<Sum>f<NR_PAGEFRAMES cfg. mappers f pt) = valid_ptes pt"
  unfolding mappers_def valid_ptes_def
  by (rule sum_mappers_entries) (simp add: entries_ok_def)

lemma sum_sum_list_swap:
  "(\<Sum>f<n. sum_list (map (h f) ps)) = sum_list (map (\<lambda>p. \<Sum>f<n. h f p) ps)"
  by (induction ps) (simp_all add: sum.distrib)

lemma accounted_conserved:
  assumes "accounted cfg s"
  shows "conserved s"
proof -
  let ?n = "NR_PAGEFRAMES cfg" and ?ps = "current s # processes s"
  from assms have len: "length (mapcounts s) = ?n"
    and ok: "\<forall>p\<in>set ?ps. entries_ok cfg (pagetable p)"
    and cnt: "\<forall>f<?n. unat (mapcounts s ! f) = sharers f s"
    by (simp_all add: accounted_def wf_vm_def)
  have "refcount_sum s = (\<Sum>f<?n. unat (mapcounts s ! f))"
    using len by (simp add: refcount_sum_def sum_list_sum_nth atLeast0LessThan)
  also have "\<dots> = (\<Sum>f<?n. sum_list (map (\<lambda>p. mappers f (pagetable p)) ?ps))"
    using cnt by (simp add: sharers_def)
  also have "\<dots> = sum_list (map (\<lambda>p. \<Sum>f<?n. mappers f (pagetable p)) ?ps)"
    by (rule sum_sum_list_swap)
  also have "\<dots> = sum_list (map (\<lambda>p. valid_ptes (pagetable p)) ?ps)"
    using ok by (intro arg_cong [where f = sum_list] map_cong refl sum_mappers) blast
  finally show ?thesis
    by (simp add: conserved_def total_valid_ptes_def)
qed

lemma accounted_init:
  assumes "0 < NR_PTES_PER_PAGE cfg" and "NR_PAGEFRAMES cfg < 2 ^ 31"
  shows "accounted cfg (init_vm cfg)"
proof -
  have "ptes_of (replicate n None) = []" for n
    by (induction n) simp_all
  then show ?thesis
    using wf_init_vm [OF assms]
    by (simp add: accounted_def entries_ok_def sharers_def mappers_def init_vm_def
        empty_pagetable_def)
qed

section \<open>The invariant under an update of one entry\<close>

lemma wf_pagetable_update:
  assumes "wf_pagetable cfg pt" and "length d = NR_PTES_PER_PAGE cfg"
  shows "wf_pagetable cfg (pt[j := Some d])"
proof -
  have "set (pt[j := Some d]) \<subseteq> insert (Some d) (set pt)"
    by (rule set_update_subset_insert)
  with assms show ?thesis
    by (auto simp: wf_pagetable_def list_all_iff split: option.splits)
qed

lemma wf_vm_set_directory:
  assumes "wf_vm cfg s" and "length d = NR_PTES_PER_PAGE cfg"
    and "length mc = NR_PAGEFRAMES cfg"
  shows "wf_vm cfg (set_directory j d (s\<lparr>mapcounts := mc\<rparr>))"
  using assms by (simp add: wf_vm_def set_directory_def wf_pagetable_update)

lemma sharers_set_directory:
  "sharers f (set_directory j d (s\<lparr>mapcounts := mc\<rparr>))
     = mappers f ((pagetable (current s))[j := Some d])
       + sum_list (map (\<lambda>p. mappers f (pagetable p)) (processes s))"
  by (simp add: sharers_def set_directory_def)

lemma sharers_current:
  "sharers f s = mappers f (pagetable (current s))
                   + sum_list (map (\<lambda>p. mappers f (pagetable p)) (processes s))"
  by (simp add: sharers_def)

lemma accounted_entry_update:
  assumes acc: "accounted cfg s"
    and j: "j < NR_PTES_PER_PAGE cfg" and d: "pagetable (current s) ! j = Some d"
    and i: "i < NR_PTES_PER_PAGE cfg"
    and y: "(valid y \<longrightarrow> unat (pfn y) < NR_PAGEFRAMES cfg) \<and> (private y = 1 \<longrightarrow> valid y)"
    and len: "length mc = NR_PAGEFRAMES cfg"
    and cnt: "\<forall>f<NR_PAGEFRAMES cfg.
                unat (mc ! f) + (if valid (d ! i) \<and> unat (pfn (d ! i)) = f then 1 else 0)
                  = unat (mapcounts s ! f) + (if valid y \<and> unat (pfn y) = f then 1 else 0)"
  shows "accounted cfg (set_directory j (d[i := y]) (s\<lparr>mapcounts := mc\<rparr>))"
proof -
  let ?pt = "pagetable (current s)"
  let ?s' = "set_directory j (d[i := y]) (s\<lparr>mapcounts := mc\<rparr>)"
  from acc have wf: "wf_vm cfg s"
    and ok: "\<forall>p\<in>set (current s # processes s). entries_ok cfg (pagetable p)"
    and old: "\<forall>f<NR_PAGEFRAMES cfg. unat (mapcounts s ! f) = sharers f s"
    by (simp_all add: accounted_def)
  note w = wf_vm_current [OF wf]
  have ld: "length d = NR_PTES_PER_PAGE cfg" by (rule w(5) [OF j d])
  have jl: "j < length ?pt" using j w(4) by simp
  have il: "i < length d" using i ld by simp
  have wf': "wf_vm cfg ?s'"
    using ld len by (intro wf_vm_set_directory [OF wf]) simp_all
  have "set (ptes_of (?pt[j := Some (d[i := y])])) \<subseteq> insert y (set (ptes_of ?pt))"
    by (rule set_ptes_of_entry_update [OF jl d])
  with ok y have cur: "entries_ok cfg (?pt[j := Some (d[i := y])])"
    by (auto simp: entries_ok_def)
  with ok have ok': "\<forall>p\<in>set (current ?s' # processes ?s'). entries_ok cfg (pagetable p)"
    by simp
  have cnt': "unat (mapcounts ?s' ! f) = sharers f ?s'" if f: "f < NR_PAGEFRAMES cfg" for f
  proof -
    let ?P = "\<lambda>p. valid p \<and> unat (pfn p) = f"
    from count_entry_update [OF jl d il, of ?P y]
    have m: "mappers f (?pt[j := Some (d[i := y])]) + (if ?P (d ! i) then 1 else 0)
               = mappers f ?pt + (if ?P y then 1 else 0)"
      by (simp add: mappers_def)
    from cnt f have "unat (mc ! f) + (if ?P (d ! i) then 1 else 0)
                       = unat (mapcounts s ! f) + (if ?P y then 1 else 0)" by simp
    also have "unat (mapcounts s ! f) = sharers f s" using old f by simp
    finally show ?thesis
      using m by (simp add: sharers_set_directory sharers_current)
  qed
  from wf' ok' cnt' show ?thesis
    unfolding accounted_def by blast
qed

lemma accounted_directory_install:
  assumes acc: "accounted cfg s"
    and j: "j < NR_PTES_PER_PAGE cfg" and d: "pagetable (current s) ! j = None"
  shows "accounted cfg (set_directory j (zero_directory cfg) s)"
proof -
  let ?pt = "pagetable (current s)"
  let ?s' = "set_directory j (zero_directory cfg) s"
  from acc have wf: "wf_vm cfg s"
    and ok: "\<forall>p\<in>set (current s # processes s). entries_ok cfg (pagetable p)"
    and old: "\<forall>f<NR_PAGEFRAMES cfg. unat (mapcounts s ! f) = sharers f s"
    by (simp_all add: accounted_def)
  note w = wf_vm_current [OF wf]
  have jl: "j < length ?pt" using j w(4) by simp
  have "wf_vm cfg (set_directory j (zero_directory cfg) (s\<lparr>mapcounts := mapcounts s\<rparr>))"
    using w(3) by (intro wf_vm_set_directory [OF wf]) (simp_all add: zero_directory_def)
  then have wf': "wf_vm cfg ?s'" by simp
  have cur: "entries_ok cfg (?pt[j := Some (zero_directory cfg)])"
    using ok by (auto simp: entries_ok_def set_ptes_of_directory_install [OF jl d]
        zero_directory_def zero_pte_def)
  with ok have ok': "\<forall>p\<in>set (current ?s' # processes ?s'). entries_ok cfg (pagetable p)"
    by simp
  have "mappers f (?pt[j := Some (zero_directory cfg)]) = mappers f ?pt" for f
    by (simp add: mappers_def count_directory_install [OF jl d] zero_directory_def zero_pte_def)
  then have "sharers f ?s' = sharers f s" for f
    by (simp add: sharers_def)
  with old have cnt': "\<forall>f<NR_PAGEFRAMES cfg. unat (mapcounts ?s' ! f) = sharers f ?s'"
    by simp
  from wf' ok' cnt' show ?thesis
    unfolding accounted_def by blast
qed

lemma accounted_entry:
  assumes "accounted cfg s" and "lookup_pte cfg (pagetable (current s)) v = Some e"
  shows "valid e \<longrightarrow> unat (pfn e) < NR_PAGEFRAMES cfg" and "private e = 1 \<longrightarrow> valid e"
    and "valid e \<longrightarrow> mapcounts s ! unat (pfn e) \<noteq> 0"
proof -
  from assms(1) have wf: "wf_vm cfg s"
    and ok: "entries_ok cfg (pagetable (current s))"
    and old: "\<forall>f<NR_PAGEFRAMES cfg. unat (mapcounts s ! f) = sharers f s"
    by (simp_all add: accounted_def)
  from wf have wp: "wf_pagetable cfg (pagetable (current s))" by (simp add: wf_vm_def)
  from lookup_pte_in_ptes_of [OF wp assms(2)] ok
  show r: "valid e \<longrightarrow> unat (pfn e) < NR_PAGEFRAMES cfg" and "private e = 1 \<longrightarrow> valid e"
    by (auto simp: entries_ok_def)
  show "valid e \<longrightarrow> mapcounts s ! unat (pfn e) \<noteq> 0"
  proof
    assume v: "valid e"
    with r old have "unat (mapcounts s ! unat (pfn e)) = sharers (unat (pfn e)) s" by simp
    moreover from mappers_pos [OF wp assms(2) v]
    have "1 \<le> sharers (unat (pfn e)) s" by (simp add: sharers_def)
    ultimately show "mapcounts s ! unat (pfn e) \<noteq> 0" by auto
  qed
qed

section \<open>Every admissible call keeps the invariant\<close>

lemma alloc_page_install:
  assumes "unat vpn div NR_PTES_PER_PAGE cfg < NR_PTES_PER_PAGE cfg"
    and "length (pagetable (current s)) = NR_PTES_PER_PAGE cfg"
    and "pagetable (current s) ! (unat vpn div NR_PTES_PER_PAGE cfg) = None"
  shows "alloc_page cfg fresh vpn rw s
           = alloc_page cfg fresh vpn rw (set_directory (unat vpn div NR_PTES_PER_PAGE cfg) fresh s)"
  using assms by (simp add: alloc_page_def Let_def set_directory_def)

lemma alloc_accounted_present:
  assumes acc: "accounted cfg s"
    and op: "unat vpn div NR_PTES_PER_PAGE cfg < NR_PTES_PER_PAGE cfg"
    and d: "pagetable (current s) ! (unat vpn div NR_PTES_PER_PAGE cfg) = Some d"
    and inv: "\<not> valid (d ! (unat vpn mod NR_PTES_PER_PAGE cfg))"
  shows "\<exists>r s'. alloc_page cfg fresh vpn rw s = Inr (r, s') \<and> accounted cfg s'"
proof (cases "scan_free (NR_PAGEFRAMES cfg) 0 (mapcounts s)")
  case None
  from alloc_page_exhausted [OF op None, of fresh rw] d acc show ?thesis by simp
next
  case (Some i)
  let ?n = "NR_PTES_PER_PAGE cfg"
  let ?op = "unat vpn div ?n" and ?ip = "unat vpn mod ?n"
  from acc have wf: "wf_vm cfg s" by (simp add: accounted_def)
  note w = wf_vm_current [OF wf]
  from scan_free_Some [OF Some] have i: "i < NR_PAGEFRAMES cfg" "mapcounts s ! i = 0" by auto
  have ui: "unat (of_nat i :: u32) = i" by (rule unat_of_nat_pfn [OF i(1) w(2)])
  let ?y = "(d ! ?ip)\<lparr>valid := True, writable := (rw \<noteq> 1), pfn := of_nat i,
                       private := (if rw \<noteq> 1 then 1 else 0)\<rparr>"
  let ?mc = "(mapcounts s)[i := mapcounts s ! i + 1]"
  have "d = (case pagetable (current s) ! ?op of None \<Rightarrow> fresh | Some d0 \<Rightarrow> d0)"
    using d by simp
  note res = alloc_page_result [OF op w(4) Some this, of rw]
  have "accounted cfg (set_directory ?op (d[?ip := ?y]) (s\<lparr>mapcounts := ?mc\<rparr>))"
  proof (rule accounted_entry_update [OF acc op d])
    show "?ip < ?n" using w(1) by simp
    show "(valid ?y \<longrightarrow> unat (pfn ?y) < NR_PAGEFRAMES cfg) \<and> (private ?y = 1 \<longrightarrow> valid ?y)"
      using i(1) ui by simp
    show "length ?mc = NR_PAGEFRAMES cfg" using w(3) by simp
    show "\<forall>f<NR_PAGEFRAMES cfg.
            unat (?mc ! f) + (if valid (d ! ?ip) \<and> unat (pfn (d ! ?ip)) = f then 1 else 0)
              = unat (mapcounts s ! f) + (if valid ?y \<and> unat (pfn ?y) = f then 1 else 0)"
      using inv i ui w(3) by (auto simp: nth_list_update)
  qed
  with res show ?thesis by simp
qed

lemma alloc_accounted:
  assumes acc: "accounted cfg s" and adm: "admissible cfg (Alloc vpn rw) s"
  shows "\<exists>s'. exec cfg (Alloc vpn rw) s = Inr s' \<and> accounted cfg s'"
proof -
  let ?n = "NR_PTES_PER_PAGE cfg"
  let ?op = "unat vpn div ?n" and ?ip = "unat vpn mod ?n"
  from acc have wf: "wf_vm cfg s" by (simp add: accounted_def)
  note w = wf_vm_current [OF wf]
  from adm have op: "?op < ?n" by simp
  have "\<exists>r s'. alloc_page cfg (zero_directory cfg) vpn rw s = Inr (r, s') \<and> accounted cfg s'"
  proof (cases "pagetable (current s) ! ?op")
    case None
    let ?s1 = "set_directory ?op (zero_directory cfg) s"
    have acc1: "accounted cfg ?s1"
      by (rule accounted_directory_install [OF acc op None])
    have d1: "pagetable (current ?s1) ! ?op = Some (zero_directory cfg)"
      using op w(4) by simp
    have inv1: "\<not> valid (zero_directory cfg ! ?ip)"
      using w(1) by (simp add: zero_directory_def zero_pte_def)
    from alloc_accounted_present [OF acc1 op d1 inv1, of "zero_directory cfg" rw]
      alloc_page_install [OF op w(4) None, of "zero_directory cfg" rw]
    show ?thesis by simp
  next
    case (Some d)
    with adm op have "\<not> valid (d ! ?ip)"
      by (simp add: lookup_pte_Some)
    from alloc_accounted_present [OF acc op Some this] show ?thesis .
  qed
  then show ?thesis by auto
qed

lemma free_accounted:
  assumes acc: "accounted cfg s" and adm: "admissible cfg (Free vpn) s"
  shows "\<exists>s'. exec cfg (Free vpn) s = Inr s' \<and> accounted cfg s'"
proof -
  let ?n = "NR_PTES_PER_PAGE cfg"
  let ?op = "unat vpn div ?n" and ?ip = "unat vpn mod ?n"
  from acc have wf: "wf_vm cfg s" by (simp add: accounted_def)
  note w = wf_vm_current [OF wf]
  from adm obtain e where lk: "lookup_pte cfg (pagetable (current s)) (unat vpn) = Some e"
    and v: "valid e"
    by (auto split: option.splits)
  from lk obtain d where d: "?op < ?n" "pagetable (current s) ! ?op = Some d" "e = d ! ?ip"
    by (rule lookup_pte_cases)
  note ent = accounted_entry [OF acc lk]
  let ?f = "unat (pfn e)"
  from ent(1) v have f: "?f < NR_PAGEFRAMES cfg" by simp
  from ent(3) v have nz: "mapcounts s ! ?f \<noteq> 0" by simp
  let ?mc = "(mapcounts s)[?f := mapcounts s ! ?f - 1]"
  have res: "free_page cfg vpn s = Inr (set_directory ?op (d[?ip := zero_pte]) (s\<lparr>mapcounts := ?mc\<rparr>))"
    using d f w(3) by (simp add: free_page_def Let_def pte_cleared)
  have "accounted cfg (set_directory ?op (d[?ip := zero_pte]) (s\<lparr>mapcounts := ?mc\<rparr>))"
  proof (rule accounted_entry_update [OF acc d(1,2)])
    show "?ip < ?n" using w(1) by simp
    show "(valid zero_pte \<longrightarrow> unat (pfn zero_pte) < NR_PAGEFRAMES cfg)
            \<and> (private zero_pte = 1 \<longrightarrow> valid zero_pte)"
      by (simp add: zero_pte_def)
    show "length ?mc = NR_PAGEFRAMES cfg" using w(3) by simp
    have "unat (mapcounts s ! ?f - 1) + 1 = unat (mapcounts s ! ?f)"
      using nz by (simp add: unat_minus_one unat_gt_0 [symmetric] Suc_leI)
    then show "\<forall>f<NR_PAGEFRAMES cfg.
            unat (?mc ! f) + (if valid (d ! ?ip) \<and> unat (pfn (d ! ?ip)) = f then 1 else 0)
              = unat (mapcounts s ! f) + (if valid zero_pte \<and> unat (pfn zero_pte) = f then 1 else 0)"
      using v d(3) f w(3) by (auto simp: nth_list_update zero_pte_def)
  qed
  with res show ?thesis by simp
qed

lemma fault_accounted:
  assumes acc: "accounted cfg s" and adm: "admissible cfg (Fault vpn rw) s"
  shows "\<exists>s'. exec cfg (Fault vpn rw) s = Inr s' \<and> accounted cfg s'"
proof -
  let ?n = "NR_PTES_PER_PAGE cfg"
  let ?op = "unat vpn div ?n" and ?ip = "unat vpn mod ?n"
  from acc have wf: "wf_vm cfg s" by (simp add: accounted_def)
  note w = wf_vm_current [OF wf]
  from adm obtain e where lk: "lookup_pte cfg (pagetable (current s)) (unat vpn) = Some e"
    by auto
  from lk obtain d where d: "?op < ?n" "pagetable (current s) ! ?op = Some d" "e = d ! ?ip"
    by (rule lookup_pte_cases)
  note ent = accounted_entry [OF acc lk]
  let ?f = "unat (pfn e)"
  have ip: "?ip < ?n" using w(1) by simp
  have "\<exists>b s'. handle_page_fault cfg vpn rw s = Inr (b, s') \<and> accounted cfg s'"
  proof (cases "private e = 1")
    case False
    with handle_page_fault_not_private [OF d(1,2), of rw] d(3) acc show ?thesis by blast
  next
    case True
    with ent have v: "valid e" and f: "?f < NR_PAGEFRAMES cfg" and nz: "mapcounts s ! ?f \<noteq> 0"
      by simp_all
    from f w(3) have fl: "?f < length (mapcounts s)" by simp
    show ?thesis
    proof (cases "mapcounts s ! ?f = 1")
      case one: True
      let ?y = "e\<lparr>writable := True\<rparr>"
      have "accounted cfg (set_directory ?op (d[?ip := ?y]) (s\<lparr>mapcounts := mapcounts s\<rparr>))"
      proof (rule accounted_entry_update [OF acc d(1,2) ip])
        show "(valid ?y \<longrightarrow> unat (pfn ?y) < NR_PAGEFRAMES cfg) \<and> (private ?y = 1 \<longrightarrow> valid ?y)"
          using v f by simp
        show "length (mapcounts s) = NR_PAGEFRAMES cfg" by (rule w(3))
        show "\<forall>f<NR_PAGEFRAMES cfg.
            unat (mapcounts s ! f) + (if valid (d ! ?ip) \<and> unat (pfn (d ! ?ip)) = f then 1 else 0)
              = unat (mapcounts s ! f) + (if valid ?y \<and> unat (pfn ?y) = f then 1 else 0)"
          using d(3) by simp
      qed
      with handle_page_fault_exclusive [OF d True fl one, of rw] show ?thesis by auto
    next
      case shared: False
      show ?thesis
      proof (cases "scan_free (NR_PAGEFRAMES cfg) 0 (mapcounts s)")
        case None
        from handle_page_fault_no_frame [OF d fl shared None, of rw] acc show ?thesis by blast
      next
        case (Some i)
        from scan_free_Some [OF Some] have i: "i < NR_PAGEFRAMES cfg" "mapcounts s ! i = 0"
          by auto
        have ui: "unat (of_nat i :: u32) = i" by (rule unat_of_nat_pfn [OF i(1) w(2)])
        from i(2) nz have fi: "?f \<noteq> i" by auto
        let ?y = "e\<lparr>writable := True, pfn := of_nat i\<rparr>"
        let ?mc1 = "(mapcounts s)[i := mapcounts s ! i + 1]"
        let ?mc = "?mc1[?f := ?mc1 ! ?f - 1]"
        have dec: "unat (mapcounts s ! ?f - 1) + 1 = unat (mapcounts s ! ?f)"
          using nz by (simp add: unat_minus_one unat_gt_0 [symmetric] Suc_leI)
        have "accounted cfg (set_directory ?op (d[?ip := ?y]) (s\<lparr>mapcounts := ?mc\<rparr>))"
        proof (rule accounted_entry_update [OF acc d(1,2) ip])
          show "(valid ?y \<longrightarrow> unat (pfn ?y) < NR_PAGEFRAMES cfg) \<and> (private ?y = 1 \<longrightarrow> valid ?y)"
            using v i(1) ui by simp
          show "length ?mc = NR_PAGEFRAMES cfg" using w(3) by simp
          show "\<forall>f<NR_PAGEFRAMES cfg.
            unat (?mc ! f) + (if valid (d ! ?ip) \<and> unat (pfn (d ! ?ip)) = f then 1 else 0)
              = unat (mapcounts s ! f) + (if valid ?y \<and> unat (pfn ?y) = f then 1 else 0)"
            using v d(3) [symmetric] f i ui fi w(3) dec by (auto simp: nth_list_update)
        qed
        with handle_page_fault_shared [OF d True fl shared Some, of rw] show ?thesis by auto
      qed
    qed
  qed
  then show ?thesis by auto
qed

section \<open>switch_process keeps the invariant\<close>

lemma unat_add_of_nat:
  "unat a + k < 2 ^ 32 \<Longrightarrow> unat (a + of_nat k :: u32) = unat a + k"
proof -
  assume b: "unat a + k < 2 ^ 32"
  then have k: "k < 2 ^ 32" by simp
  then have "unat (of_nat k :: u32) = k"
    by (simp add: unat_of_nat take_bit_nat_eq_self)
  with b show ?thesis
    by (simp add: unat_word_ariths)
qed

lemma map2_replicate:
  "map2 f xs (replicate (length xs) c) = map (\<lambda>x. f x c) xs"
  by (induction xs) simp_all

lemma wf_pagetable_map:
  "wf_pagetable cfg pt \<Longrightarrow> wf_pagetable cfg (map (map_option (map g)) pt)"
  by (auto simp: wf_pagetable_def list_all_iff split: option.splits)

lemma entries_ok_map:
  assumes "entries_ok cfg pt"
    and "\<And>p. valid (g p) = valid p"
    and "\<And>p. valid p \<Longrightarrow> pfn (g p) = pfn p"
    and "\<And>p. private (g p) = 1 \<Longrightarrow> private p = 1"
  shows "entries_ok cfg (map (map_option (map g)) pt)"
  using assms by (auto simp: entries_ok_def ptes_of_map)

lemma accounted_permute:
  assumes "accounted cfg s"
    and "mset (current s' # processes s') = mset (current s # processes s)"
    and "mapcounts s' = mapcounts s"
  shows "accounted cfg s'"
proof -
  from assms(2) have st: "set (current s' # processes s') = set (current s # processes s)"
    by (rule mset_eq_setD)
  have "sum_list (map g (current s' # processes s')) = sum_list (map g (current s # processes s))"
    for g :: "process \<Rightarrow> nat"
  proof -
    have "sum_mset (mset (map g (current s' # processes s')))
            = sum_mset (mset (map g (current s # processes s)))"
      using assms(2) by (metis mset_map)
    then show ?thesis by (simp only: sum_mset_sum_list)
  qed
  then have sh: "sharers f s' = sharers f s" for f
    by (simp only: sharers_def)
  from assms(1) have "wf_vm cfg s" by (simp add: accounted_def)
  then have "wf_vm cfg s'"
    unfolding wf_vm_def list_all_iff st assms(3) .
  moreover from assms(1) have "\<forall>p\<in>set (current s' # processes s'). entries_ok cfg (pagetable p)"
    unfolding accounted_def st by blast
  moreover from assms(1) have "\<forall>f<NR_PAGEFRAMES cfg. unat (mapcounts s' ! f) = sharers f s'"
    unfolding accounted_def sh assms(3) by blast
  ultimately show ?thesis unfolding accounted_def by blast
qed

lemma cow_parent_fields [simp]:
  "valid (cow_parent p) = valid p" "pfn (cow_parent p) = pfn p"
  "private (cow_parent p) = private p"
  by (simp_all add: cow_parent_def)

lemma cow_child_zero_fields:
  "valid (cow_child p zero_pte) = valid p"
  "valid p \<Longrightarrow> pfn (cow_child p zero_pte) = pfn p"
  "private (cow_child p zero_pte) = 1 \<Longrightarrow> valid p \<and> private p = 1"
  by (simp_all add: cow_child_def zero_pte_def split: if_splits)

lemma switch_accounted:
  assumes acc: "accounted cfg s" and adm: "admissible cfg (Switch x) s"
  shows "\<exists>s'. exec cfg (Switch x) s = Inr s' \<and> accounted cfg s'"
proof (cases "find_process x (processes s)")
  case (Some k)
  let ?s' = "s\<lparr>processes := list_del k (processes s) @ [current s], current := processes s ! k\<rparr>"
  from find_process_Some [OF Some] have k: "k < length (processes s)" by simp
  have "mset (current ?s' # processes ?s') = mset (current s # processes s)"
    using mset_list_del [OF k] by simp
  then have "accounted cfg ?s'"
    by (rule accounted_permute [OF acc]) simp
  with switch_process_found [OF Some, of cfg "empty_pagetable cfg" "\<lambda>j. zero_directory cfg"]
  show ?thesis by simp
next
  case None
  let ?n = "NR_PTES_PER_PAGE cfg" and ?ppt = "pagetable (current s)"
  let ?ppt' = "map (map_option (map cow_parent)) ?ppt"
  let ?cpt = "map (map_option (map (\<lambda>p. cow_child p zero_pte))) ?ppt"
  let ?mc = "foldl bump (mapcounts s) (ptes_of ?ppt)"
  from acc have wf: "wf_vm cfg s"
    and ok: "\<forall>p\<in>set (current s # processes s). entries_ok cfg (pagetable p)"
    and old: "\<forall>f<NR_PAGEFRAMES cfg. unat (mapcounts s ! f) = sharers f s"
    by (simp_all add: accounted_def)
  note w = wf_vm_current [OF wf]
  from wf have wp: "wf_pagetable cfg ?ppt" by (simp add: wf_vm_def)
  from ok have okc: "entries_ok cfg ?ppt" by simp
  then have rng: "\<forall>p\<in>set (ptes_of ?ppt). valid p \<longrightarrow> unat (pfn p) < NR_PAGEFRAMES cfg"
    by (simp add: entries_ok_def)
  have l1: "length (empty_pagetable cfg) = ?n" by (simp add: empty_pagetable_def)
  have l2: "\<forall>j<?n. length (zero_directory cfg) = ?n" by (simp add: zero_directory_def)
  from switch_process_fork [OF wf None rng l1 l2] obtain cpt where c:
    "switch_process cfg (empty_pagetable cfg) (\<lambda>j. zero_directory cfg) x s =
           Inr (s\<lparr>processes := processes s @ [(current s)\<lparr>pagetable := ?ppt'\<rparr>],
                  current := \<lparr>pid = x, pagetable = cpt\<rparr>,
                  mapcounts := ?mc\<rparr>)"
    "length cpt = ?n"
    "\<forall>i<?n. cpt ! i = (case ?ppt ! i of None \<Rightarrow> empty_pagetable cfg ! i
                       | Some pd \<Rightarrow> Some (map2 cow_child pd (zero_directory cfg)))"
    by blast
  have cpt: "cpt = ?cpt"
  proof (rule nth_equalityI)
    show "length cpt = length ?cpt" using c(2) w(4) by simp
    fix i assume "i < length cpt"
    with c(2) have i: "i < ?n" by simp
    show "cpt ! i = ?cpt ! i"
    proof (cases "?ppt ! i")
      case None
      with c(3) i w(4) show ?thesis by (simp add: empty_pagetable_def)
    next
      case (Some pd)
      have "length pd = ?n" by (rule w(5) [OF i Some])
      then have "map2 cow_child pd (zero_directory cfg) = map (\<lambda>p. cow_child p zero_pte) pd"
        using map2_replicate [of cow_child pd zero_pte] by (simp add: zero_directory_def)
      with c(3) i w(4) Some show ?thesis by simp
    qed
  qed
  let ?s' = "s\<lparr>processes := processes s @ [(current s)\<lparr>pagetable := ?ppt'\<rparr>],
                current := \<lparr>pid = x, pagetable = ?cpt\<rparr>, mapcounts := ?mc\<rparr>"
  have wf': "wf_vm cfg ?s'"
    using wf by (simp add: wf_vm_def wf_pagetable_map)
  have okp: "entries_ok cfg ?ppt'"
    by (rule entries_ok_map [OF okc]) simp_all
  have okch: "entries_ok cfg ?cpt"
    by (rule entries_ok_map [OF okc]) (simp_all add: cow_child_zero_fields)
  from ok okp okch have ok': "\<forall>p\<in>set (current ?s' # processes ?s'). entries_ok cfg (pagetable p)"
    by simp
  have mp: "mappers f ?ppt' = mappers f ?ppt" for f
    by (rule mappers_map) simp_all
  have mc: "mappers f ?cpt = mappers f ?ppt" for f
    by (rule mappers_map) (simp_all add: cow_child_zero_fields)
  have cnt': "unat (mapcounts ?s' ! f) = sharers f ?s'" if f: "f < NR_PAGEFRAMES cfg" for f
  proof -
    from old f have o: "unat (mapcounts s ! f) = sharers f s" by simp
    from adm None f w(3) have "unat (mapcounts s ! f) < 2 ^ 31"
      by (simp add: list_all_length)
    moreover have "mappers f ?ppt \<le> sharers f s" by (simp add: sharers_def)
    ultimately have "unat (mapcounts s ! f) + mappers f ?ppt < 2 ^ 32"
      using o by simp
    then have "unat (mapcounts s ! f + of_nat (mappers f ?ppt)) = unat (mapcounts s ! f) + mappers f ?ppt"
      by (rule unat_add_of_nat)
    moreover have "?mc ! f = mapcounts s ! f + of_nat (mappers f ?ppt)"
      using f w(3) by (simp add: foldl_bump_nth mappers_def)
    moreover have "sharers f ?s' = sharers f s + mappers f ?ppt"
      by (simp add: sharers_def mp mc)
    ultimately show ?thesis using o by simp
  qed
  from wf' ok' cnt' have "accounted cfg ?s'"
    unfolding accounted_def by blast
  with c(1) cpt show ?thesis by simp
qed

section \<open>Conservation along admissible call sequences\<close>

lemma exec_accounted:
  assumes "accounted cfg s" and "admissible cfg c s"
  shows "\<exists>s'. exec cfg c s = Inr s' \<and> accounted cfg s'"
proof (cases c)
  case (Alloc vpn rw)
  with assms show ?thesis using alloc_accounted by blast
next
  case (Free vpn)
  with assms show ?thesis using free_accounted by blast
next
  case (Fault vpn rw)
  with assms show ?thesis using fault_accounted by blast
next
  case (Switch x)
  with assms show ?thesis using switch_accounted by blast
qed

lemma run_accounted:
  "accounted cfg s \<Longrightarrow> run cfg cs s = Some s' \<Longrightarrow> accounted cfg s'"
proof (induction cs arbitrary: s)
  case Nil
  then show ?case by simp
next
  case (Cons c cs)
  from Cons.prems(2) have adm: "admissible cfg c s"
    by (simp split: if_splits)
  from exec_accounted [OF Cons.prems(1) adm] obtain s1
    where s1: "exec cfg c s = Inr s1" "accounted cfg s1" by blast
  with Cons.prems(2) adm have "run cfg cs s1 = Some s'" by simp
  from Cons.IH [OF s1(2) this] show ?case .
qed

text \<open>
  C3 (amended): start from the initial state and make any sequence of admissible calls
  (alloc_page for an unmapped page of the two-level range, free_page for a mapped page,
  handle_page_fault for a page whose directory exists, switch_process, with a fork only
  while every count is below \<open>2^31\<close>), every allocated block being zero-filled. Then
  the sum of the reference counts of all frames equals the number of valid entries in the
  page tables of all processes, running and queued; and every further admissible call
  returns normally and keeps this equality.
\<close>

theorem C3_conservation:
  assumes "0 < NR_PTES_PER_PAGE cfg" and "NR_PAGEFRAMES cfg < 2 ^ 31"
    and "run cfg cs (init_vm cfg) = Some s"
  shows "conserved s
       \<and> (\<forall>c. admissible cfg c s \<longrightarrow> (\<exists>s'. exec cfg c s = Inr s' \<and> conserved s'))"
proof -
  have acc: "accounted cfg s"
    by (rule run_accounted [OF accounted_init [OF assms(1,2)] assms(3)])
  have "\<exists>s'. exec cfg c s = Inr s' \<and> conserved s'" if "admissible cfg c s" for c
    using exec_accounted [OF acc that] accounted_conserved by blast
  with accounted_conserved [OF acc] show ?thesis by blast
qed

text \<open>
  C3 as stated fails: two alloc_page calls for the same virtual page, from the initial
  state. The second call binds the entry to frame 1 and leaves the count of frame 0 at 1:
  the counts sum to 2 and there is one valid entry.
\<close>

theorem C3_counterexample:
  "alloc_page cfg4 (zero_directory cfg4) 0 2 (init_vm cfg4) = Inr (0, vm_one)
   \<and> alloc_page cfg4 (zero_directory cfg4) 0 2 vm_one = Inr (1, vm_leak)
   \<and> refcount_sum vm_leak = 2 \<and> total_valid_ptes vm_leak = 1
   \<and> \<not> conserved vm_leak"
  by code_simp

section \<open>Conservation at concrete inputs\<close>

lemma run_example:
  "run cfg4 [Alloc 0 2, Switch 1, Fault 0 2] (init_vm cfg4) = Some vm_cow"
proof -
  have a1: "admissible cfg4 (Alloc 0 2) (init_vm cfg4)"
    by (simp add: lookup_pte_def cfg4_def init_vm_def empty_pagetable_def)
  have e1: "exec cfg4 (Alloc 0 2) (init_vm cfg4) = Inr vm_one"
    by (simp add: vm_one_from_init)
  have a2: "admissible cfg4 (Switch 1) vm_one"
    by (simp add: vm_one_def)
  have e2: "exec cfg4 (Switch 1) vm_one = Inr vm_forked"
    by (simp add: vm_forked_from_vm_one)
  have a3: "admissible cfg4 (Fault 0 2) vm_forked"
    by (simp add: lookup_pte_def cfg4_def vm_forked_def)
  have "handle_page_fault cfg4 0 2 vm_forked = Inr (True, vm_cow)"
    by code_simp
  then have e3: "exec cfg4 (Fault 0 2) vm_forked = Inr vm_cow"
    by simp
  from a1 e1 a2 e2 a3 e3 show ?thesis by simp
qed

text \<open>
  C3 (amended) after an allocation, a fork and a copy-on-write fault of the child; the
  child then frees its page.
\<close>

theorem C3_conservation_witness:
  "conserved vm_cow \<and> (\<exists>s'. exec cfg4 (Free 0) vm_cow = Inr s' \<and> conserved s')"
proof -
  have n: "0 < NR_PTES_PER_PAGE cfg4" and f: "NR_PAGEFRAMES cfg4 < 2 ^ 31"
    by (simp_all add: cfg4_def)
  have a: "admissible cfg4 (Free 0) vm_cow"
    by (simp add: lookup_pte_def cfg4_def vm_cow_def)
  from C3_conservation [OF n f run_example] a show ?thesis by blast
qed

section \<open>handle_page_fault ignores the access intent\<close>

text \<open>
  C10: handle_page_fault never reads its \<open>rw\<close> argument: for every state and every
  virtual page number, any two access intents give the same result (the same fault, or
  the same boolean and the same final state).
\<close>

theorem C10_fault_ignores_rw:
  "handle_page_fault cfg vpn rw1 s = handle_page_fault cfg vpn rw2 s"
  by (simp add: handle_page_fault_def)

end
